theory Spec2Isabelle
  imports Main "HOL-Library.Char_ord" "HOL-Library.List_Lexorder" "HOL-Library.Multiset"
begin

section \<open>Python values\<close>

text \<open>
  The extractor works on the dictionaries that the Drive client library builds from
  JSON responses. A Python value is one of the shapes \<open>json.loads\<close> yields. A
  dictionary is an association list in insertion order; its keys are strings. A Python
  \<open>str\<close> is a list of characters, each character standing for one code point below
  256. JSON numbers with a fractional part (Python \<open>float\<close>) are left out of the
  value universe.
\<close>

datatype pyval =
    PNone
  | PBool bool
  | PInt int
  | PStr string
  | PList "pyval list"
  | PDict "(string \<times> pyval) list"

type_synonym pydict = "(string \<times> pyval) list"

datatype pyerror =
    AttributeError | TypeError | KeyError | IndexError | HttpError | RecursionError

text \<open>
  Library functions of Python whose results the extractor passes on without looking at
  them are taken as given: \<open>str()\<close> of a list or dictionary, the upper case
  of one character (\<open>str.upper\<close> maps a string character by character),
  \<open>datetime.fromisoformat\<close> followed by \<open>strftime\<close> (\<open>None\<close> when the
  parse raises), \<open>int()\<close> of a string (\<open>None\<close> when it raises) and the
  \<open>.2f\<close> format of a size divided by a power of 1024. The interpreter's recursion
  limit is taken as given too, as the number of nested calls of
  \<open>_collect_files_recursively\<close> that it leaves room for.
\<close>

record pylib =
  py_repr :: "pyval \<Rightarrow> string"
  upper_char :: "char \<Rightarrow> string"
  fromisoformat_strftime :: "string \<Rightarrow> string option"
  int_of_str :: "string \<Rightarrow> int option"
  format_2f :: "int \<Rightarrow> nat \<Rightarrow> string"
  recursion_limit :: nat

text \<open>\<open>d.get(key, default)\<close> on a dictionary.\<close>

definition dget :: "pydict \<Rightarrow> string \<Rightarrow> pyval \<Rightarrow> pyval" where
  "dget d k dflt = (case map_of d k of None \<Rightarrow> dflt | Some v \<Rightarrow> v)"

text \<open>\<open>v.get(key, default)\<close> on any value: only a dictionary has the method.\<close>

fun attr_get :: "pyval \<Rightarrow> string \<Rightarrow> pyval \<Rightarrow> pyerror + pyval" where
  "attr_get (PDict d) k dflt = Inr (dget d k dflt)"
| "attr_get _ k dflt = Inl AttributeError"

text \<open>Truth value of a Python object, as \<open>if v\<close> and \<open>not v\<close> read it.\<close>

fun py_truthy :: "pyval \<Rightarrow> bool" where
  "py_truthy PNone = False"
| "py_truthy (PBool b) = b"
| "py_truthy (PInt i) = (i \<noteq> 0)"
| "py_truthy (PStr s) = (s \<noteq> [])"
| "py_truthy (PList xs) = (xs \<noteq> [])"
| "py_truthy (PDict d) = (d \<noteq> [])"

text \<open>
  \<open>v[0]\<close>: the first element of a list, the first character of a string; a
  dictionary has no key \<open>0\<close> (its keys are strings); other values cannot be indexed.
  The extractor only indexes a value it has found truthy, so the empty list and the empty
  string do not occur there.
\<close>

fun subscript0 :: "pyval \<Rightarrow> pyerror + pyval" where
  "subscript0 (PList (x # xs)) = Inr x"
| "subscript0 (PStr (c # cs)) = Inr (PStr [c])"
| "subscript0 (PList []) = Inl IndexError"
| "subscript0 (PStr []) = Inl IndexError"
| "subscript0 (PDict d) = Inl KeyError"
| "subscript0 _ = Inl TypeError"

text \<open>
  Iterating a value (\<open>for x in v\<close>): the elements of a list, the characters of a
  string, the keys of a dictionary; anything else is not iterable.
\<close>

fun py_iter :: "pyval \<Rightarrow> pyerror + pyval list" where
  "py_iter (PList xs) = Inr xs"
| "py_iter (PStr s) = Inr (map (\<lambda>c. PStr [c]) s)"
| "py_iter (PDict d) = Inr (map (\<lambda>(k, v). PStr k) d)"
| "py_iter _ = Inl TypeError"

text \<open>Decimal digits of a natural number and \<open>str()\<close> of an integer.\<close>

fun str_nat :: "nat \<Rightarrow> string" where
  "str_nat n =
     (if n < 10 then [''0123456789'' ! n]
      else str_nat (n div 10) @ [''0123456789'' ! (n mod 10)])"

definition str_int :: "int \<Rightarrow> string" where
  "str_int i = (if i < 0 then CHR ''-'' # str_nat (nat (- i)) else str_nat (nat i))"

text \<open>\<open>str(v)\<close>, also what an f-string does with \<open>{v}\<close>.\<close>

fun py_str :: "pylib \<Rightarrow> pyval \<Rightarrow> string" where
  "py_str L (PStr s) = s"
| "py_str L (PInt i) = str_int i"
| "py_str L (PBool b) = (if b then ''True'' else ''False'')"
| "py_str L PNone = ''None''"
| "py_str L v = py_repr L v"

text \<open>\<open>sep.join(parts)\<close> on strings.\<close>

fun str_join :: "string \<Rightarrow> string list \<Rightarrow> string" where
  "str_join sep [] = []"
| "str_join sep [x] = x"
| "str_join sep (x # y # ys) = x @ sep @ str_join sep (y # ys)"

text \<open>
  \<open>sep.join(v)\<close> on a value: \<open>v\<close> must be iterable and every element a string.
\<close>

fun the_strs :: "pyval list \<Rightarrow> pyerror + string list" where
  "the_strs [] = Inr []"
| "the_strs (PStr s # vs) = (case the_strs vs of Inl e \<Rightarrow> Inl e | Inr ss \<Rightarrow> Inr (s # ss))"
| "the_strs (_ # vs) = Inl TypeError"

definition py_join :: "string \<Rightarrow> pyval \<Rightarrow> pyerror + string" where
  "py_join sep v =
     (case py_iter v of
        Inl e \<Rightarrow> Inl e
      | Inr xs \<Rightarrow> (case the_strs xs of Inl e \<Rightarrow> Inl e | Inr ss \<Rightarrow> Inr (str_join sep ss)))"

text \<open>
  \<open>s.strip()\<close>: whitespace is removed at both ends. Among the code points below 256
  Python counts as whitespace 9 to 13, 28 to 32, 133 and 160.
\<close>

definition py_isspace :: "char \<Rightarrow> bool" where
  "py_isspace c =
     (let n = (of_char c :: nat)
      in (9 \<le> n \<and> n \<le> 13) \<or> (28 \<le> n \<and> n \<le> 32) \<or> n = 133 \<or> n = 160)"

definition py_strip :: "string \<Rightarrow> string" where
  "py_strip s = rev (dropWhile py_isspace (rev (dropWhile py_isspace s)))"

text \<open>\<open>s.split(sep)\<close> for a separator of one character; the result is never empty.\<close>

fun str_split :: "char \<Rightarrow> string \<Rightarrow> string list" where
  "str_split sep [] = [[]]"
| "str_split sep (c # cs) =
     (if c = sep then [] # str_split sep cs
      else (case str_split sep cs of p # ps \<Rightarrow> (c # p) # ps | [] \<Rightarrow> [[c]]))"

text \<open>\<open>s.replace(c, t)\<close> for a character \<open>c\<close>.\<close>

definition str_replace :: "char \<Rightarrow> string \<Rightarrow> string \<Rightarrow> string" where
  "str_replace c t s = concat (map (\<lambda>x. if x = c then t else [x]) s)"

text \<open>\<open>len(v)\<close> of a value that has been iterated.\<close>

fun py_len :: "pyval \<Rightarrow> int" where
  "py_len (PList xs) = int (length xs)"
| "py_len (PStr s) = int (length s)"
| "py_len (PDict d) = int (length d)"
| "py_len _ = 0"

text \<open>\<open>s.upper()\<close>\<close>

definition str_upper :: "pylib \<Rightarrow> string \<Rightarrow> string" where
  "str_upper L s = concat (map (upper_char L) s)"

text \<open>Sequencing of steps that may raise: the first exception ends the computation.\<close>

definition and_then :: "pyerror + 'a \<Rightarrow> ('a \<Rightarrow> pyerror + 'b) \<Rightarrow> pyerror + 'b" where
  "and_then m f = (case m of Inl e \<Rightarrow> Inl e | Inr v \<Rightarrow> f v)"

section \<open>The extractor (src/extractor.py)\<close>

subsection \<open>Worker count\<close>

text \<open>
  \<open>MetadataExtractor.__init__\<close>: \<open>max_workers\<close> is an optional integer;
  \<open>None\<close> becomes 1, and the value is then forced into the interval from 1 to 4 by
  \<open>max(1, min(max_workers, 4))\<close>.
\<close>

definition init_max_workers :: "int option \<Rightarrow> int" where
  "init_max_workers max_workers =
     (let mw = (case max_workers of None \<Rightarrow> 1 | Some w \<Rightarrow> w)
      in max 1 (min mw 4))"

subsection \<open>Formatting\<close>

text \<open>
  \<open>format_datetime\<close>: a falsy argument gives \<open>None\<close>; otherwise the string is
  parsed and printed again, and the bare \<open>except\<close> returns the argument unchanged
  when anything raises (a value that is no string has no \<open>replace\<close>).
\<close>

definition format_datetime :: "pylib \<Rightarrow> pyval \<Rightarrow> pyval" where
  "format_datetime L dt_string =
     (if \<not> py_truthy dt_string then PNone
      else (case dt_string of
              PStr s \<Rightarrow>
                (case fromisoformat_strftime L (str_replace CHR ''Z'' ''+00:00'' s) of
                   Some t \<Rightarrow> PStr t
                 | None \<Rightarrow> dt_string)
            | _ \<Rightarrow> dt_string))"

text \<open>\<open>int(v)\<close>; \<open>None\<close> when it raises.\<close>

fun py_int :: "pylib \<Rightarrow> pyval \<Rightarrow> int option" where
  "py_int L (PStr s) = int_of_str L s"
| "py_int L (PInt i) = Some i"
| "py_int L (PBool b) = Some (if b then 1 else 0)"
| "py_int L _ = None"

text \<open>
  The loop over the units: at unit number \<open>k\<close> the running value is the size divided
  by \<open>1024 ^ k\<close>, and it is compared with 1024.
\<close>

fun scale_units :: "pylib \<Rightarrow> int \<Rightarrow> nat \<Rightarrow> string list \<Rightarrow> string" where
  "scale_units L sz k [] = format_2f L sz k @ '' PB''"
| "scale_units L sz k (unit # units) =
     (if sz < 1024 * 1024 ^ k then format_2f L sz k @ '' '' @ unit
      else scale_units L sz (Suc k) units)"

definition format_size :: "pylib \<Rightarrow> pyval \<Rightarrow> pyval" where
  "format_size L size_bytes =
     (if \<not> py_truthy size_bytes then PStr ''N/A''
      else (case py_int L size_bytes of
              None \<Rightarrow> size_bytes
            | Some sz \<Rightarrow> PStr (scale_units L sz 0 [''B'', ''KB'', ''MB'', ''GB'', ''TB''])))"

text \<open>\<open>get_file_path\<close> returns the name it is given; the rest of its body is dead.\<close>

definition get_file_path :: "pyval \<Rightarrow> pyval \<Rightarrow> pyval" where
  "get_file_path file_id file_name = file_name"

definition type_mapping :: "(string \<times> string) list" where
  "type_mapping =
     [(''application/vnd.google-apps.folder'', ''Folder''),
      (''application/vnd.google-apps.document'', ''Google Docs''),
      (''application/vnd.google-apps.spreadsheet'', ''Google Sheets''),
      (''application/vnd.google-apps.presentation'', ''Google Slides''),
      (''application/pdf'', ''PDF''),
      (''image/jpeg'', ''JPEG Image''),
      (''image/png'', ''PNG Image''),
      (''application/vnd.openxmlformats-officedocument.wordprocessingml.document'', ''Word''),
      (''application/vnd.openxmlformats-officedocument.spreadsheetml.sheet'', ''Excel''),
      (''text/plain'', ''Text'')]"

text \<open>
  \<open>_get_file_type\<close>: the default of \<open>type_mapping.get\<close> is computed before the
  lookup, so a MIME type that is no string raises on \<open>split\<close>.
\<close>

definition get_file_type :: "pylib \<Rightarrow> pyval \<Rightarrow> pyerror + pyval" where
  "get_file_type L mime_type =
     (case mime_type of
        PStr s \<Rightarrow>
          Inr (PStr (case map_of type_mapping s of
                       Some t \<Rightarrow> t
                     | None \<Rightarrow> str_upper L (last (str_split CHR ''/'' s))))
      | _ \<Rightarrow> Inl AttributeError)"

subsection \<open>extract_file_metadata\<close>

text \<open>\<open>owners[0].get(key, 'N/A') if owners else 'N/A'\<close>\<close>

definition first_owner :: "pyval \<Rightarrow> string \<Rightarrow> pyerror + pyval" where
  "first_owner owners k =
     (if py_truthy owners
      then and_then (subscript0 owners) (\<lambda>owner. attr_get owner k (PStr ''N/A''))
      else Inr (PStr ''N/A''))"

text \<open>The loop that builds the list \<open>permission_types\<close>.\<close>

fun permission_pairs :: "pylib \<Rightarrow> pyval list \<Rightarrow> pyerror + string list" where
  "permission_pairs L [] = Inr []"
| "permission_pairs L (perm # perms) =
     and_then (attr_get perm ''type'' (PStr ''unknown'')) (\<lambda>perm_type.
     and_then (attr_get perm ''role'' (PStr ''unknown'')) (\<lambda>role.
     and_then (permission_pairs L perms) (\<lambda>rest.
       Inr ((py_str L perm_type @ '':'' @ py_str L role) # rest))))"

text \<open>
  The body of \<open>extract_file_metadata\<close>, statement by statement. Every \<open>file.get\<close>
  is total; the steps that can raise are the access to the first owner, the two
  \<open>.get\<close> on the user objects, the loop over the permissions, the file type and the
  join of the parents. \<open>metadata_dict\<close> is the dictionary literal bound to
  \<open>metadata\<close>, with the local variables it mentions as arguments; the file type and
  the joined parents are evaluated inside the literal in the source, after every other
  step that can raise.
\<close>

definition metadata_dict ::
  "pylib \<Rightarrow> pydict \<Rightarrow> pyval \<Rightarrow> pyval \<Rightarrow> pyval \<Rightarrow> pyval \<Rightarrow> pyval \<Rightarrow> pyval \<Rightarrow> pyval
     \<Rightarrow> string list \<Rightarrow> pyval \<Rightarrow> string \<Rightarrow> pydict" where
  "metadata_dict L file owner_email owner_name last_modifier_email last_modifier_name
     sharing_user_email file_path permissions permission_types file_type parents =
       [(''id'', dget file ''id'' (PStr ''N/A'')),
        (''name'', dget file ''name'' (PStr ''N/A'')),
        (''mime_type'', dget file ''mimeType'' (PStr ''N/A'')),
        (''file_type'', file_type),
        (''creation_date'', format_datetime L (dget file ''createdTime'' PNone)),
        (''modification_date'', format_datetime L (dget file ''modifiedTime'' PNone)),
        (''last_viewed_date'', format_datetime L (dget file ''viewedByMeTime'' PNone)),
        (''creation_date_raw'', dget file ''createdTime'' (PStr ''N/A'')),
        (''modification_date_raw'', dget file ''modifiedTime'' (PStr ''N/A'')),
        (''size_bytes'', dget file ''size'' (PStr ''0'')),
        (''size_formatted'', format_size L (dget file ''size'' PNone)),
        (''owner_email'', owner_email),
        (''owner_name'', owner_name),
        (''last_modifier_email'', last_modifier_email),
        (''last_modifier_name'', last_modifier_name),
        (''sharing_user_email'', sharing_user_email),
        (''full_path'', file_path),
        (''share_link'', dget file ''webViewLink'' (PStr ''N/A'')),
        (''shared'', dget file ''shared'' (PBool False)),
        (''trashed'', dget file ''trashed'' (PBool False)),
        (''starred'', dget file ''starred'' (PBool False)),
        (''description'', dget file ''description'' (PStr [])),
        (''md5_checksum'', dget file ''md5Checksum'' (PStr ''N/A'')),
        (''version'', dget file ''version'' (PStr ''N/A'')),
        (''permissions'',
           if permission_types \<noteq> [] then PStr (str_join ''; '' permission_types)
           else PStr ''N/A''),
        (''permission_count'', PInt (py_len permissions)),
        (''parents'', PStr parents)]"

definition extract_file_metadata :: "pylib \<Rightarrow> pydict \<Rightarrow> pyerror + pydict" where
  "extract_file_metadata L file =
     (let owners = dget file ''owners'' (PList []) in
      and_then (first_owner owners ''emailAddress'') (\<lambda>owner_email.
      and_then (first_owner owners ''displayName'') (\<lambda>owner_name.
      let last_modifying_user = dget file ''lastModifyingUser'' (PDict []) in
      and_then (attr_get last_modifying_user ''emailAddress'' (PStr ''N/A'')) (\<lambda>last_modifier_email.
      and_then (attr_get last_modifying_user ''displayName'' (PStr ''N/A'')) (\<lambda>last_modifier_name.
      let sharing_user = dget file ''sharingUser'' (PDict []) in
      and_then (attr_get sharing_user ''emailAddress'' (PStr ''N/A'')) (\<lambda>sharing_user_email.
      let file_path = get_file_path (dget file ''id'' PNone) (dget file ''name'' (PStr ''Unknown''));
          permissions = dget file ''permissions'' (PList []) in
      and_then (py_iter permissions) (\<lambda>perms.
      and_then (permission_pairs L perms) (\<lambda>permission_types.
      and_then (get_file_type L (dget file ''mimeType'' (PStr []))) (\<lambda>file_type.
      and_then (py_join ''; '' (dget file ''parents'' (PList []))) (\<lambda>parents.
      Inr (metadata_dict L file owner_email owner_name last_modifier_email last_modifier_name
             sharing_user_email file_path permissions permission_types file_type
             parents)))))))))))"

text \<open>
  \<open>_process_file\<close>: any exception of \<open>extract_file_metadata\<close> is caught and
  \<open>None\<close> is returned in its place.
\<close>

definition process_file :: "pylib \<Rightarrow> pydict \<Rightarrow> pydict option" where
  "process_file L file =
     (case extract_file_metadata L file of Inl e \<Rightarrow> None | Inr metadata \<Rightarrow> Some metadata)"

text \<open>
  The shape the Drive API gives an item: each structured field, when present, has its
  wire type (a list of user objects, a user object, a list of permission objects, a
  string, a list of strings). Any field may be missing, and the scalar fields are not
  constrained.
\<close>

fun is_dict :: "pyval \<Rightarrow> bool" where
  "is_dict (PDict d) = True"
| "is_dict _ = False"

fun is_str :: "pyval \<Rightarrow> bool" where
  "is_str (PStr s) = True"
| "is_str _ = False"

fun is_list_of :: "(pyval \<Rightarrow> bool) \<Rightarrow> pyval \<Rightarrow> bool" where
  "is_list_of P (PList xs) = list_all P xs"
| "is_list_of P _ = False"

definition absent_or :: "(pyval \<Rightarrow> bool) \<Rightarrow> pydict \<Rightarrow> string \<Rightarrow> bool" where
  "absent_or P file k = (case map_of file k of None \<Rightarrow> True | Some v \<Rightarrow> P v)"

definition api_shaped :: "pydict \<Rightarrow> bool" where
  "api_shaped file =
     (absent_or (is_list_of is_dict) file ''owners''
      \<and> absent_or is_dict file ''lastModifyingUser''
      \<and> absent_or is_dict file ''sharingUser''
      \<and> absent_or (is_list_of is_dict) file ''permissions''
      \<and> absent_or is_str file ''mimeType''
      \<and> absent_or (is_list_of is_str) file ''parents'')"

text \<open>
  The value \<open>extract_file_metadata\<close> gives a field of the record when the field of
  the item it is built from is missing: the triples are (item field, record field,
  value), read off the defaults of the source.
\<close>

definition sentinels :: "(string \<times> string \<times> pyval) list" where
  "sentinels =
     [(''id'', ''id'', PStr ''N/A''),
      (''name'', ''name'', PStr ''N/A''),
      (''mimeType'', ''mime_type'', PStr ''N/A''),
      (''mimeType'', ''file_type'', PStr []),
      (''createdTime'', ''creation_date'', PNone),
      (''modifiedTime'', ''modification_date'', PNone),
      (''viewedByMeTime'', ''last_viewed_date'', PNone),
      (''createdTime'', ''creation_date_raw'', PStr ''N/A''),
      (''modifiedTime'', ''modification_date_raw'', PStr ''N/A''),
      (''size'', ''size_bytes'', PStr ''0''),
      (''size'', ''size_formatted'', PStr ''N/A''),
      (''owners'', ''owner_email'', PStr ''N/A''),
      (''owners'', ''owner_name'', PStr ''N/A''),
      (''lastModifyingUser'', ''last_modifier_email'', PStr ''N/A''),
      (''lastModifyingUser'', ''last_modifier_name'', PStr ''N/A''),
      (''sharingUser'', ''sharing_user_email'', PStr ''N/A''),
      (''name'', ''full_path'', PStr ''Unknown''),
      (''webViewLink'', ''share_link'', PStr ''N/A''),
      (''shared'', ''shared'', PBool False),
      (''trashed'', ''trashed'', PBool False),
      (''starred'', ''starred'', PBool False),
      (''description'', ''description'', PStr []),
      (''md5Checksum'', ''md5_checksum'', PStr ''N/A''),
      (''version'', ''version'', PStr ''N/A''),
      (''permissions'', ''permissions'', PStr ''N/A''),
      (''permissions'', ''permission_count'', PInt 0),
      (''parents'', ''parents'', PStr [])]"

subsection \<open>The remote listing\<close>

text \<open>
  The Drive service answers a listing query page by page. A query names the folder whose
  children are listed (or none, for the whole drive), by the text that the f-string
  \<open>'{folder_id}' in parents\<close> puts between the quotes, and says whether
  \<open>trashed = false\<close> is part of it. The drive is the finite table of its answers: for
  each query the successive responses, each one a page of items or an \<open>HttpError\<close>;
  a response carries a \<open>nextPageToken\<close> exactly when another response follows it. A
  query that is not in the table has no items.
\<close>

datatype query = InParents string bool | WholeDrive bool

datatype response = Page "pydict list" | ApiError

type_synonym drive = "(query \<times> response list) list"

definition list_pages :: "drive \<Rightarrow> query \<Rightarrow> response list" where
  "list_pages D q = (case map_of D q of None \<Rightarrow> [] | Some pages \<Rightarrow> pages)"

definition is_folder :: "pydict \<Rightarrow> bool" where
  "is_folder file = (dget file ''mimeType'' PNone = PStr ''application/vnd.google-apps.folder'')"

text \<open>
  A list or a dictionary cannot be a member of a Python set. The members of a set are
  told apart by \<open>==\<close> (and by their hashes, which agree on equal values):
  \<open>True == 1\<close> and \<open>False == 0\<close>, so a Boolean and the integer it equals are
  one member, while \<open>None\<close>, the integers and the strings are equal to themselves
  only. \<open>py_key\<close> maps a hashable value to the representative of the values equal to
  it; a set of Python is the set of the keys of its members.
\<close>

fun hashable :: "pyval \<Rightarrow> bool" where
  "hashable (PList xs) = False"
| "hashable (PDict d) = False"
| "hashable _ = True"

fun py_key :: "pyval \<Rightarrow> pyval" where
  "py_key (PBool b) = PInt (if b then 1 else 0)"
| "py_key v = v"

subsection \<open>_collect_files_recursively\<close>

text \<open>
  The recursion of the source, with the set \<open>visited_folders\<close> passed through every
  call and returned (the source mutates one shared set); the set holds the keys of its
  members. \<open>children\<close> stands for the listing request of the source: the responses
  to the query for the children of a folder, with the trash filter of the call.
  \<open>scan_pages\<close> is the \<open>while True\<close> loop over the pages of one folder and
  \<open>scan_folders\<close> the \<open>for folder in folders_to_scan\<close> loop of one page. The
  first argument is the number of nested calls that the interpreter's recursion limit
  still leaves room for: a call beyond it raises \<open>RecursionError\<close>, which the
  source does not catch (its handler takes \<open>HttpError\<close> only, and raises it again).
\<close>

type_synonym collected = "pyerror + pydict list \<times> pyval set"

function collect_files_recursively :: "nat \<Rightarrow> (pyval \<Rightarrow> response list) \<Rightarrow> pyval \<Rightarrow> pyval set \<Rightarrow> collected"
  and scan_pages :: "nat \<Rightarrow> (pyval \<Rightarrow> response list) \<Rightarrow> response list \<Rightarrow> pydict list \<Rightarrow> pyval set \<Rightarrow> collected"
  and scan_folders :: "nat \<Rightarrow> (pyval \<Rightarrow> response list) \<Rightarrow> pydict list \<Rightarrow> pydict list \<Rightarrow> pyval set \<Rightarrow> collected"
where
  "collect_files_recursively 0 children folder_id visited_folders = Inl RecursionError"
| "collect_files_recursively (Suc n) children folder_id visited_folders =
     (if \<not> hashable folder_id then Inl TypeError
      else if py_key folder_id \<in> visited_folders then Inr ([], visited_folders)
      else scan_pages n children (children folder_id) []
             (insert (py_key folder_id) visited_folders))"
| "scan_pages n children [] all_files visited_folders =
     Inr (all_files, visited_folders)"
| "scan_pages n children (ApiError # pages) all_files visited_folders =
     Inl HttpError"
| "scan_pages n children (Page files # pages) all_files visited_folders =
     (if files = [] then Inr (all_files, visited_folders)
      else
        (case scan_folders n children (filter is_folder files)
                (all_files @ filter (\<lambda>file. \<not> is_folder file) files) visited_folders of
           Inl e \<Rightarrow> Inl e
         | Inr (all_files', visited') \<Rightarrow>
             scan_pages n children pages all_files' visited'))"
| "scan_folders n children [] all_files visited_folders =
     Inr (all_files, visited_folders)"
| "scan_folders n children (folder # folders) all_files visited_folders =
     (let subfolder_id = dget folder ''id'' PNone in
      if \<not> py_truthy subfolder_id
        then scan_folders n children folders all_files visited_folders
      else if \<not> hashable subfolder_id then Inl TypeError
      else if py_key subfolder_id \<in> visited_folders
        then scan_folders n children folders all_files visited_folders
      else
        (case collect_files_recursively n children subfolder_id visited_folders of
           Inl e \<Rightarrow> Inl e
         | Inr (subfolder_files, visited') \<Rightarrow>
             scan_folders n children folders (all_files @ subfolder_files) visited'))"
  by pat_completeness auto
termination
  by (relation "measures [
      (\<lambda>x. case x of Inl (n, _) \<Rightarrow> n | Inr (Inl (n, _)) \<Rightarrow> Suc n | Inr (Inr (n, _)) \<Rightarrow> Suc n),
      (\<lambda>x. case x of Inl _ \<Rightarrow> 2 | Inr (Inl _) \<Rightarrow> 1 | Inr (Inr _) \<Rightarrow> 0),
      (\<lambda>x. case x of Inl _ \<Rightarrow> 0 | Inr (Inl (n, c, pgs, _)) \<Rightarrow> length pgs | Inr (Inr (n, c, fs, _)) \<Rightarrow> length fs)]")
    auto

text \<open>
  The call that \<open>extract_folder\<close> makes: no folder visited yet, and the depth that the
  recursion limit allows. The listing request of a folder is the query that carries
  \<open>str()\<close> of its id. The folder entries of a drive are the items of its pages that
  are folders.
\<close>

fun page_files :: "response \<Rightarrow> pydict list" where
  "page_files (Page files) = files"
| "page_files ApiError = []"

definition folder_entries :: "drive \<Rightarrow> pydict list" where
  "folder_entries D = filter is_folder (concat (map page_files (concat (map snd D))))"

definition children_of :: "pylib \<Rightarrow> drive \<Rightarrow> bool \<Rightarrow> pyval \<Rightarrow> response list" where
  "children_of L D include_trashed folder_id =
     list_pages D (InParents (py_str L folder_id) (\<not> include_trashed))"

definition collect_from_root :: "pylib \<Rightarrow> drive \<Rightarrow> bool \<Rightarrow> pyval \<Rightarrow> collected" where
  "collect_from_root L D include_trashed folder_id =
     collect_files_recursively (recursion_limit L)
       (children_of L D include_trashed) folder_id {}"

subsection \<open>extract_folder\<close>

text \<open>The flat listing of the whole drive: the \<open>while True\<close> loop of \<open>extract_folder\<close>.\<close>

fun list_whole_drive :: "response list \<Rightarrow> pydict list \<Rightarrow> pyerror + pydict list" where
  "list_whole_drive [] all_files = Inr all_files"
| "list_whole_drive (ApiError # pages) all_files = Inl HttpError"
| "list_whole_drive (Page files # pages) all_files =
     (if files = [] then Inr all_files else list_whole_drive pages (all_files @ files))"

text \<open>
  The processing loops keep three variables. One item is handled the same way on both
  paths: a record that is a non-empty dictionary is appended to \<open>all_metadata\<close>,
  otherwise the item's id (or \<open>'unknown'\<close>) is appended to \<open>errors\<close>; the count
  goes up by one. \<open>_process_file\<close> never raises, so the \<open>except\<close> branches around
  it are dead; \<open>executor.submit\<close> is taken not to raise.
\<close>

record processing =
  all_metadata :: "pydict list"
  errors :: "pyval list"
  processed_count :: nat

definition process_one :: "pylib \<Rightarrow> processing \<Rightarrow> pydict \<Rightarrow> processing" where
  "process_one L st file =
     (case process_file L file of
        Some metadata \<Rightarrow>
          if metadata \<noteq> []
          then st\<lparr>all_metadata := all_metadata st @ [metadata],
                  processed_count := Suc (processed_count st)\<rparr>
          else st\<lparr>errors := errors st @ [dget file ''id'' (PStr ''unknown'')],
                  processed_count := Suc (processed_count st)\<rparr>
      | None \<Rightarrow>
          st\<lparr>errors := errors st @ [dget file ''id'' (PStr ''unknown'')],
             processed_count := Suc (processed_count st)\<rparr>)"

definition sequential_loop :: "pylib \<Rightarrow> pydict list \<Rightarrow> processing" where
  "sequential_loop L all_files =
     foldl (process_one L) \<lparr>all_metadata = [], errors = [], processed_count = 0\<rparr> all_files"

text \<open>
  The batches \<open>all_files[batch_start:batch_start + batch_size]\<close> for \<open>batch_start\<close>
  in \<open>range(0, len(all_files), batch_size)\<close>, each with its start index.
\<close>

function batches :: "nat \<Rightarrow> nat \<Rightarrow> 'a list \<Rightarrow> (nat \<times> 'a list) list" where
  "batches batch_size batch_start xs =
     (if batch_size = 0 \<or> xs = [] then []
      else (batch_start, take batch_size xs)
             # batches batch_size (batch_start + batch_size) (drop batch_size xs))"
  by pat_completeness auto
termination
  by (relation "measure (\<lambda>(batch_size, batch_start, xs). length xs)") auto

text \<open>
  The thread pool path. All items of a batch are submitted, and \<open>as_completed\<close>
  hands the futures back in the order in which they finish: \<open>completion\<close> gives that
  order for the batch that starts at a given index. Which orders can occur is not decided
  here; the theorems say what they assume of it.
\<close>

definition run_batch ::
  "pylib \<Rightarrow> (nat \<Rightarrow> pydict list \<Rightarrow> pydict list) \<Rightarrow> processing \<Rightarrow> nat \<times> pydict list
     \<Rightarrow> processing" where
  "run_batch L completion st b = foldl (process_one L) st (completion (fst b) (snd b))"

definition parallel_loop ::
  "pylib \<Rightarrow> (nat \<Rightarrow> pydict list \<Rightarrow> pydict list) \<Rightarrow> pydict list \<Rightarrow> processing" where
  "parallel_loop L completion all_files =
     (let batch_size = min 10 (length all_files)
      in foldl (run_batch L completion)
           \<lparr>all_metadata = [], errors = [], processed_count = 0\<rparr>
           (batches batch_size 0 all_files))"

definition process_items ::
  "pylib \<Rightarrow> int \<Rightarrow> (nat \<Rightarrow> pydict list \<Rightarrow> pydict list) \<Rightarrow> pydict list \<Rightarrow> processing" where
  "process_items L max_workers completion all_files =
     (if max_workers = 1 then sequential_loop L all_files
      else parallel_loop L completion all_files)"

text \<open>
  \<open>extract_folder\<close>: the collection phase, the early return on an empty list, and the
  processing phase. Only \<open>all_metadata\<close> is returned. The progress callback is given
  no part here: the extractor does not use what it returns, and it is taken to return
  without raising.
\<close>

definition extract_folder ::
  "pylib \<Rightarrow> drive \<Rightarrow> int \<Rightarrow> (nat \<Rightarrow> pydict list \<Rightarrow> pydict list) \<Rightarrow> string option \<Rightarrow> bool
     \<Rightarrow> pyerror + pydict list" where
  "extract_folder L D max_workers completion folder_id include_trashed =
     (case (case folder_id of
              Some fid \<Rightarrow>
                if fid \<noteq> []
                then map_sum id fst (collect_from_root L D include_trashed (PStr fid))
                else list_whole_drive (list_pages D (WholeDrive (\<not> include_trashed))) []
            | None \<Rightarrow> list_whole_drive (list_pages D (WholeDrive (\<not> include_trashed))) [])
      of
        Inl e \<Rightarrow> Inl e
      | Inr all_files \<Rightarrow>
          if all_files = [] then Inr []
          else Inr (all_metadata (process_items L max_workers completion all_files)))"

section \<open>The forensic hash data (src/exporters.py)\<close>

definition forensic_fields :: "string list" where
  "forensic_fields =
     [''id'', ''name'', ''mime_type'', ''file_type'', ''creation_date_raw'',
      ''modification_date_raw'', ''size_bytes'', ''md5_checksum'', ''description'',
      ''trashed'']"

text \<open>
  The chain of type tests on one field value, in the order of the source: \<open>None\<close>,
  \<open>bool\<close>, number, list, string; a dictionary passes unchanged.
\<close>

fun stringify :: "pylib \<Rightarrow> pyval \<Rightarrow> pyval" where
  "stringify L PNone = PStr []"
| "stringify L (PBool b) = PStr (if b then ''true'' else ''false'')"
| "stringify L (PInt i) = PStr (str_int i)"
| "stringify L (PList vs) =
     PStr (if vs \<noteq> []
           then str_join '';'' (sort (map (\<lambda>v. py_strip (py_str L v)) (filter py_truthy vs)))
           else [])"
| "stringify L (PStr s) = PStr (if s \<noteq> [] then py_strip s else [])"
| "stringify L (PDict d) = PDict d"

text \<open>
  One entry of \<open>forensic_files\<close>: the fields are visited in sorted order, so the
  dictionary is built in key order and the final re-ordering by key changes nothing.
\<close>

definition forensic_file :: "pylib \<Rightarrow> pydict \<Rightarrow> pydict" where
  "forensic_file L file_data =
     map (\<lambda>field. (field, stringify L (dget file_data field (PStr [])))) (sort forensic_fields)"

text \<open>
  \<open>sorted(metadata, key=lambda x: x.get('id', ''))\<close>: a stable sort on the keys.
  Nothing is compared when there is at most one record. Keys that are all strings are
  ordered as strings, keys that are all numbers as numbers (\<open>True\<close> is 1). A string
  cannot be compared with a value of another type, nor \<open>None\<close> or a dictionary with
  anything: \<open>TypeError\<close>. Keys that are lists are not modelled: the function raises
  for them as well, where Python compares them element by element.
\<close>

definition id_key :: "pydict \<Rightarrow> pyval" where
  "id_key x = dget x ''id'' (PStr [])"

fun the_str :: "pyval \<Rightarrow> string" where
  "the_str (PStr s) = s"
| "the_str _ = []"

fun is_num :: "pyval \<Rightarrow> bool" where
  "is_num (PInt i) = True"
| "is_num (PBool b) = True"
| "is_num _ = False"

fun the_num :: "pyval \<Rightarrow> int" where
  "the_num (PInt i) = i"
| "the_num (PBool b) = (if b then 1 else 0)"
| "the_num _ = 0"

definition sorted_by_id :: "pydict list \<Rightarrow> pyerror + pydict list" where
  "sorted_by_id metadata =
     (if length metadata \<le> 1 then Inr metadata
      else if list_all (\<lambda>x. is_str (id_key x)) metadata
        then Inr (sort_key (\<lambda>x. the_str (id_key x)) metadata)
      else if list_all (\<lambda>x. is_num (id_key x)) metadata
        then Inr (sort_key (\<lambda>x. the_num (id_key x)) metadata)
      else Inl TypeError)"

text \<open>
  \<open>create_forensic_hash_data\<close> returns the dictionary \<open>{'files': forensic_files}\<close>.
  The exporters serialise it as compact JSON with sorted keys and take the SHA-256 digest
  of the text: equal dictionaries give equal digests.
\<close>

definition create_forensic_hash_data :: "pylib \<Rightarrow> pydict list \<Rightarrow> pyerror + pyval" where
  "create_forensic_hash_data L metadata =
     and_then (sorted_by_id metadata) (\<lambda>sorted_metadata.
       Inr (PDict [(''files'',
                    PList (map (\<lambda>file_data. PDict (forensic_file L file_data)) sorted_metadata))]))"

section \<open>The job controller (web_app.py)\<close>

subsection \<open>State\<close>

text \<open>
  The module keeps one dictionary \<open>extraction_state\<close>, two events and the worker
  threads it has started. The status is one of the strings \<open>idle\<close>, \<open>running\<close>,
  \<open>paused\<close>, \<open>stopped\<close>, \<open>completed\<close>, \<open>error\<close>. Time is a counter that
  only the action \<open>Tick\<close> advances; it starts at 1, so that a start time that has
  been set is truthy, as a value of \<open>time.time()\<close> is.
\<close>

datatype job_status = Idle | Running | Paused | Stopped | Completed | Error

record extraction_state =
  status :: job_status
  progress :: int
  total :: int
  current_phase :: string
  message :: string
  metadata :: "pydict list option"
  output_path :: "string option"
  error :: "string option"
  start_time :: "nat option"
  elapsed_time :: nat

text \<open>
  What one call of \<open>run_extraction\<close> meets on its way: whether authentication and the
  connection test succeed, the calls that \<open>extract_folder\<close> makes to the progress
  callback (status, progress, total, message), what \<open>extract_folder\<close> returns or the
  text of the exception it raises, and the export formats whose exporter raises, each
  with the text of the exception. \<open>base_name\<close> is the last component of the output
  name, taken to have no suffix: an exporter writes the file of that name with the suffix
  of its format, in the directory \<open>output\<close>.
\<close>

type_synonym callback = "string \<times> int \<times> int \<times> string"

record job =
  base_name :: string
  export_formats :: "string list"
  auth_error :: "string option"
  callbacks :: "callback list"
  extraction :: "string + pydict list"
  export_error :: "(string \<times> string) list"

text \<open>
  The places of \<open>run_extraction\<close> between two accesses to the shared state. A test
  of \<open>stop_event\<close> and the locked block that follows it are two places, since another
  thread can run between them; a computation that touches nothing shared belongs to the
  access before it. \<open>Stop_check i\<close> is the i-th test \<open>if stop_event.is_set()\<close> of
  \<open>run_extraction\<close>, from 1 to 9; the places \<open>Cb_\<close> are inside the k-th call of
  the progress callback.
\<close>

datatype pc =
    Begin
  | Init_state
  | Stop_check nat
  | Stop_write
  | Progress_auth
  | Authenticate
  | Progress_init
  | Cb_check nat
  | Cb_pause_write nat
  | Cb_wait nat
  | Cb_resume_write nat
  | Cb_update nat
  | Export_state
  | Export_csv
  | Export_json
  | Export_pdf
  | Complete
  | Raised string
  | Error_write string
  | Done

record worker =
  at :: pc
  job_of :: job

record sys =
  state :: extraction_state
  pause_event :: bool
  stop_event :: bool
  threads :: "worker list"
  written :: "string list"
  clock :: nat

text \<open>The dictionary literal that the module, the start handler and the stop handler assign.\<close>

definition fresh_state :: "string \<Rightarrow> extraction_state" where
  "fresh_state msg =
     \<lparr>status = Idle, progress = 0, total = 0, current_phase = [], message = msg,
      metadata = None, output_path = None, error = None, start_time = None,
      elapsed_time = 0\<rparr>"

definition init_sys :: sys where
  "init_sys =
     \<lparr>state = fresh_state [], pause_event = False, stop_event = False, threads = [],
      written = [], clock = 1\<rparr>"

subsection \<open>update_progress\<close>

definition update_progress :: "string \<Rightarrow> int \<Rightarrow> int \<Rightarrow> string \<Rightarrow> sys \<Rightarrow> sys" where
  "update_progress st pr tot msg s =
     s\<lparr>state := (state s)
          \<lparr>current_phase := st, progress := pr, total := tot, message := msg,
           elapsed_time := (case start_time (state s) of
                              Some t \<Rightarrow> clock s - t
                            | None \<Rightarrow> elapsed_time (state s))\<rparr>\<rparr>"

subsection \<open>The request handlers\<close>

text \<open>
  Each handler runs under the lock, so it is one step. A request that the handler
  answers with an error leaves everything as it is. \<open>start_extraction\<close> is given the
  job that the new thread will run; a request with an invalid folder reference is rejected
  before anything changes, so it is not an action here.
\<close>

definition start_extraction :: "job \<Rightarrow> sys \<Rightarrow> sys" where
  "start_extraction j s =
     (if status (state s) = Running then s
      else s\<lparr>stop_event := False, pause_event := False, state := fresh_state [],
             threads := threads s @ [\<lparr>at = Begin, job_of = j\<rparr>]\<rparr>)"

definition get_progress :: "sys \<Rightarrow> sys" where
  "get_progress s =
     (case start_time (state s) of
        Some t \<Rightarrow> s\<lparr>state := (state s)\<lparr>elapsed_time := clock s - t\<rparr>\<rparr>
      | None \<Rightarrow> s)"

definition pause_extraction :: "sys \<Rightarrow> sys" where
  "pause_extraction s =
     (if status (state s) = Running
      then s\<lparr>pause_event := True,
             state := (state s)\<lparr>status := Paused,
                                message := ''Extraction paused. Click Resume to continue.''\<rparr>\<rparr>
      else s)"

definition resume_extraction :: "sys \<Rightarrow> sys" where
  "resume_extraction s =
     (if status (state s) = Paused
      then s\<lparr>pause_event := False,
             state := (state s)\<lparr>status := Running, message := ''Resuming extraction...''\<rparr>\<rparr>
      else s)"

definition stop_extraction :: "sys \<Rightarrow> sys" where
  "stop_extraction s =
     (if status (state s) = Running \<or> status (state s) = Paused
      then s\<lparr>stop_event := True, pause_event := False,
             state := fresh_state ''Extraction stopped by user''\<rparr>
      else s)"

subsection \<open>run_extraction\<close>

text \<open>Where \<open>run_extraction\<close> goes on when a test of \<open>stop_event\<close> finds it clear.\<close>

definition extract_return :: "job \<Rightarrow> pc" where
  "extract_return j = (case extraction j of Inl msg \<Rightarrow> Raised msg | Inr m \<Rightarrow> Stop_check 4)"

definition after_callback :: "nat \<Rightarrow> job \<Rightarrow> pc" where
  "after_callback k j = (if Suc k < length (callbacks j) then Cb_check (Suc k) else extract_return j)"

definition after_check :: "nat \<Rightarrow> job \<Rightarrow> pc" where
  "after_check i j =
     (if i = 1 then Progress_auth
      else if i = 2 then Authenticate
      else if i = 3 then (if callbacks j = [] then extract_return j else Cb_check 0)
      else if i = 4 then
        (case extraction j of
           Inr m \<Rightarrow> if m = [] then Raised ''No files found to extract'' else Stop_check 5
         | Inl msg \<Rightarrow> Raised msg)
      else if i = 5 then Export_state
      else if i = 6 then Export_csv
      else if i = 7 then Export_json
      else if i = 8 then Export_pdf
      else Complete)"

text \<open>The records that \<open>extract_folder\<close> has returned to the thread.\<close>

definition records_of :: "job \<Rightarrow> pydict list" where
  "records_of j = (case extraction j of Inr m \<Rightarrow> m | Inl msg \<Rightarrow> [])"

text \<open>
  One exporter call: skipped when the format is not requested; otherwise the exporter
  raises, or the file is written. The CSV exporter returns without writing when it is
  given no record. A file that an exporter leaves behind when it raises is not counted.
\<close>

definition export_step :: "string \<Rightarrow> nat \<Rightarrow> worker \<Rightarrow> sys \<Rightarrow> worker \<times> sys" where
  "export_step fmt next_check w s =
     (if fmt \<in> set (export_formats (job_of w))
      then (case map_of (export_error (job_of w)) fmt of
              Some msg \<Rightarrow> (w\<lparr>at := Raised msg\<rparr>, s)
            | None \<Rightarrow>
                (w\<lparr>at := Stop_check next_check\<rparr>,
                 if fmt = ''csv'' \<and> records_of (job_of w) = [] then s
                 else s\<lparr>written := written s @ [''output/'' @ base_name (job_of w) @ ''.'' @ fmt]\<rparr>))
      else (w\<lparr>at := Stop_check next_check\<rparr>, s))"

text \<open>
  One step of a thread: the access to the shared state at its place, and the next place.
  The last block of \<open>run_extraction\<close> assigns the status, the records, the output
  path and the message, and then the elapsed time, \<open>time.time()\<close> minus the start
  time: when the start time is \<open>None\<close> (the state has been replaced since the thread
  set it) the subtraction raises \<open>TypeError\<close> after the other four assignments.
\<close>

definition type_error_text :: string where
  "type_error_text =
     ''unsupported operand type(s) for -: '' @ [CHR 0x27] @ ''float'' @ [CHR 0x27]
       @ '' and '' @ [CHR 0x27] @ ''NoneType'' @ [CHR 0x27]"

fun thread_step :: "worker \<Rightarrow> sys \<Rightarrow> worker \<times> sys" where
  "thread_step w s =
     (let j = job_of w in
      case at w of
        Begin \<Rightarrow> (w\<lparr>at := Init_state\<rparr>, s\<lparr>pause_event := False, stop_event := False\<rparr>)
      | Init_state \<Rightarrow>
          (w\<lparr>at := Stop_check 1\<rparr>,
           s\<lparr>state := (state s)
                \<lparr>status := Running, progress := 0, total := 0, error := None,
                 start_time := Some (clock s), current_phase := ''authenticating'',
                 message := ''Connecting to Google Drive...'', metadata := None,
                 output_path := None\<rparr>\<rparr>)
      | Stop_check i \<Rightarrow>
          (if stop_event s then (w\<lparr>at := Stop_write\<rparr>, s)
           else (w\<lparr>at := after_check i j\<rparr>, s))
      | Stop_write \<Rightarrow>
          (w\<lparr>at := Done\<rparr>,
           s\<lparr>state := (state s)\<lparr>status := Stopped, message := ''Extraction stopped by user''\<rparr>\<rparr>)
      | Progress_auth \<Rightarrow>
          (w\<lparr>at := Stop_check 2\<rparr>,
           update_progress ''authenticating'' 0 0 ''Authenticating with Google Drive...'' s)
      | Authenticate \<Rightarrow>
          (case auth_error j of
             Some msg \<Rightarrow> (w\<lparr>at := Raised msg\<rparr>, s)
           | None \<Rightarrow> (w\<lparr>at := Progress_init\<rparr>, s))
      | Progress_init \<Rightarrow>
          (w\<lparr>at := Stop_check 3\<rparr>,
           update_progress ''initializing'' 0 0 ''Initializing extractor...'' s)
      | Cb_check k \<Rightarrow>
          (if stop_event s then (w\<lparr>at := after_callback k j\<rparr>, s)
           else if pause_event s then (w\<lparr>at := Cb_pause_write k\<rparr>, s)
           else (w\<lparr>at := Cb_update k\<rparr>, s))
      | Cb_pause_write k \<Rightarrow>
          (w\<lparr>at := Cb_wait k\<rparr>,
           s\<lparr>state := (state s)\<lparr>status := Paused,
                                message := ''Extraction paused. Click Resume to continue.''\<rparr>\<rparr>)
      | Cb_wait k \<Rightarrow>
          (if pause_event s \<and> \<not> stop_event s then (w, s)
           else if stop_event s then (w\<lparr>at := after_callback k j\<rparr>, s)
           else (w\<lparr>at := Cb_resume_write k\<rparr>, s))
      | Cb_resume_write k \<Rightarrow>
          (w\<lparr>at := Cb_update k\<rparr>,
           if status (state s) = Paused
           then s\<lparr>state := (state s)\<lparr>status := Running, message := ''Resuming extraction...''\<rparr>\<rparr>
           else s)
      | Cb_update k \<Rightarrow>
          (w\<lparr>at := after_callback k j\<rparr>,
           (case callbacks j ! k of (st, pr, tot, msg) \<Rightarrow> update_progress st pr tot msg s))
      | Export_state \<Rightarrow>
          (w\<lparr>at := Stop_check 6\<rparr>,
           s\<lparr>state := (state s)
                \<lparr>total := int (length (records_of j)), progress := int (length (records_of j)),
                 current_phase := ''Exporting results...'',
                 message := ''Exporting '' @ str_nat (length (records_of j)) @ '' files...''\<rparr>\<rparr>)
      | Export_csv \<Rightarrow> export_step ''csv'' 7 w s
      | Export_json \<Rightarrow> export_step ''json'' 8 w s
      | Export_pdf \<Rightarrow> export_step ''pdf'' 9 w s
      | Complete \<Rightarrow>
          (let completed =
             (state s)
               \<lparr>status := Completed, metadata := Some (records_of j),
                output_path := Some (''output/'' @ base_name j),
                message := ''Successfully extracted '' @ str_nat (length (records_of j)) @ '' files!''\<rparr>
           in case start_time (state s) of
                Some t \<Rightarrow>
                  (w\<lparr>at := Done\<rparr>, s\<lparr>state := completed\<lparr>elapsed_time := clock s - t\<rparr>\<rparr>)
              | None \<Rightarrow> (w\<lparr>at := Raised type_error_text\<rparr>, s\<lparr>state := completed\<rparr>))
      | Raised msg \<Rightarrow>
          (if stop_event s then (w\<lparr>at := Done\<rparr>, s) else (w\<lparr>at := Error_write msg\<rparr>, s))
      | Error_write msg \<Rightarrow>
          (w\<lparr>at := Done\<rparr>,
           s\<lparr>state := (state s)\<lparr>status := Error, error := Some msg, message := ''Error: '' @ msg\<rparr>\<rparr>)
      | Done \<Rightarrow> (w, s))"

subsection \<open>Runs\<close>

text \<open>
  What can happen next: a request arrives, the clock advances, or one of the threads
  takes its next step. A run is a sequence of such actions from the initial state.
\<close>

datatype action =
    Start job
  | Pause
  | Resume
  | Stop
  | Poll
  | Tick
  | Step nat

fun fire :: "sys \<Rightarrow> action \<Rightarrow> sys" where
  "fire s (Start j) = start_extraction j s"
| "fire s Pause = pause_extraction s"
| "fire s Resume = resume_extraction s"
| "fire s Stop = stop_extraction s"
| "fire s Poll = get_progress s"
| "fire s Tick = s\<lparr>clock := Suc (clock s)\<rparr>"
| "fire s (Step i) =
     (if i < length (threads s)
      then (case thread_step (threads s ! i) s of
              (w, s') \<Rightarrow> s'\<lparr>threads := (threads s')[i := w]\<rparr>)
      else s)"

definition run :: "action list \<Rightarrow> sys" where
  "run acts = foldl fire init_sys acts"


section \<open>The containment graph\<close>

text \<open>
  What the traversal sees of a drive. The loop over the pages of a folder stops at the
  first page without items, so the pages it works on are those before it. The subfolders
  of a folder are the ids, where truthy, of the folder entries on these pages; its leaf
  entries are the other items on them, in page order; a folder is reachable from the
  root when a chain of subfolder links leads to it.
\<close>

definition fetched :: "response list \<Rightarrow> response list" where
  "fetched pages = takeWhile (\<lambda>page. page_files page \<noteq> []) pages"

definition folder_ids :: "pydict list \<Rightarrow> pyval set" where
  "folder_ids folders = set (filter py_truthy (map (\<lambda>folder. dget folder ''id'' PNone) folders))"

definition listed_subfolders :: "response list \<Rightarrow> pyval set" where
  "listed_subfolders pages =
     folder_ids (filter is_folder (concat (map page_files (fetched pages))))"

definition listed_leaves :: "response list \<Rightarrow> pydict list" where
  "listed_leaves pages =
     filter (\<lambda>file. \<not> is_folder file) (concat (map page_files (fetched pages)))"

definition subfolder_link :: "(pyval \<Rightarrow> response list) \<Rightarrow> (pyval \<times> pyval) set" where
  "subfolder_link children = {(f, g). g \<in> listed_subfolders (children f)}"

definition reachable_folders :: "(pyval \<Rightarrow> response list) \<Rightarrow> pyval \<Rightarrow> pyval set" where
  "reachable_folders children root = (subfolder_link children)\<^sup>* `` {root}"

section \<open>Concrete instances\<close>

text \<open>
  Instances at which the definitions are evaluated. \<open>stub_lib\<close> fixes each library
  function to a constant one, and the recursion limit to the default of the interpreter;
  no evaluation below depends on what the functions return.
  \<open>submission_order\<close> and \<open>reverse_order\<close> are two orders in which the futures
  of a batch may complete.
\<close>

definition stub_lib :: pylib where
  "stub_lib =
     \<lparr>py_repr = (\<lambda>v. ''<object>''), upper_char = (\<lambda>c. [c]),
      fromisoformat_strftime = (\<lambda>s. None), int_of_str = (\<lambda>s. None),
      format_2f = (\<lambda>sz k. ''0.00''), recursion_limit = 1000\<rparr>"

definition submission_order :: "nat \<Rightarrow> pydict list \<Rightarrow> pydict list" where
  "submission_order batch_start batch = batch"

definition reverse_order :: "nat \<Rightarrow> pydict list \<Rightarrow> pydict list" where
  "reverse_order batch_start batch = rev batch"

text \<open>
  Two items and two listings of them: \<open>item_a\<close> has the shape of the API,
  \<open>item_b\<close> has a number where the list of owners should be. \<open>flat_drive\<close>
  answers the query for the whole drive, \<open>folder_drive\<close> the query for the children
  of the folder \<open>root\<close>.
\<close>

definition item_a :: pydict where
  "item_a = [(''id'', PStr ''a'')]"

definition item_b :: pydict where
  "item_b = [(''id'', PStr ''b''), (''owners'', PInt 5)]"

definition flat_drive :: "pydict list \<Rightarrow> drive" where
  "flat_drive files = [(WholeDrive True, [Page files])]"

definition folder_drive :: "pydict list \<Rightarrow> drive" where
  "folder_drive files = [(InParents ''root'' True, [Page files])]"

text \<open>
  Records for the forensic hash data: \<open>record_1\<close> and \<open>record_2\<close> have
  different ids; \<open>record_1_renamed\<close> is \<open>record_1\<close> with a space added at the
  end of the name, \<open>record_1_starred\<close> is \<open>record_1\<close> with the star set, and
  \<open>record_1_other\<close> is a different record under the id of \<open>record_1\<close>.
\<close>

definition record_1 :: pydict where
  "record_1 = [(''id'', PStr ''f1''), (''name'', PStr ''report''), (''starred'', PBool False)]"

definition record_2 :: pydict where
  "record_2 = [(''id'', PStr ''f2''), (''name'', PStr ''notes''), (''starred'', PBool False)]"

definition record_1_renamed :: pydict where
  "record_1_renamed =
     [(''id'', PStr ''f1''), (''name'', PStr ''report ''), (''starred'', PBool False)]"

definition record_1_starred :: pydict where
  "record_1_starred =
     [(''id'', PStr ''f1''), (''name'', PStr ''report''), (''starred'', PBool True)]"

definition record_1_other :: pydict where
  "record_1_other = [(''id'', PStr ''f1''), (''name'', PStr ''draft''), (''starred'', PBool False)]"

text \<open>
  Three drives. In \<open>cycle_drive\<close> folder \<open>A\<close> lists folder \<open>B\<close> and the
  leaf \<open>x\<close>, and \<open>B\<close> lists \<open>A\<close>. In \<open>diamond_drive\<close> the root lists
  the folders \<open>A\<close> and \<open>B\<close>, and each of them lists the leaf \<open>x\<close>: the leaf
  has two parents. In \<open>alias_drive\<close> the root lists two folders whose ids are the
  number 1 and the Boolean \<open>True\<close>; the queries for their children differ
  (\<open>'1' in parents\<close>, \<open>'True' in parents\<close>) and are answered with
  \<open>item_a\<close> and \<open>item_b\<close>.
\<close>

definition folder_item :: "string \<Rightarrow> pydict" where
  "folder_item fid = [(''id'', PStr fid), (''mimeType'', PStr ''application/vnd.google-apps.folder'')]"

definition leaf_x :: pydict where
  "leaf_x = [(''id'', PStr ''x''), (''mimeType'', PStr ''text/plain'')]"

definition cycle_drive :: drive where
  "cycle_drive =
     [(InParents ''A'' True, [Page [folder_item ''B'', leaf_x]]),
      (InParents ''B'' True, [Page [folder_item ''A'']])]"

definition diamond_drive :: drive where
  "diamond_drive =
     [(InParents ''root'' True, [Page [folder_item ''A'', folder_item ''B'']]),
      (InParents ''A'' True, [Page [leaf_x]]),
      (InParents ''B'' True, [Page [leaf_x]])]"

definition alias_drive :: drive where
  "alias_drive =
     [(InParents ''root'' True,
         [Page [[(''id'', PInt 1), (''mimeType'', PStr ''application/vnd.google-apps.folder'')],
                [(''id'', PBool True), (''mimeType'', PStr ''application/vnd.google-apps.folder'')]]]),
      (InParents ''1'' True, [Page [item_a]]),
      (InParents ''True'' True, [Page [item_b]])]"

text \<open>
  Two jobs of the web application, with the callbacks that \<open>extract_folder\<close> makes
  on the whole-drive path: \<open>empty_job\<close> finds no file, \<open>one_file_job\<close> finds
  \<open>item_a\<close> and extracts it with one worker. Authentication and the exporters succeed.
\<close>

definition empty_job :: job where
  "empty_job =
     \<lparr>base_name = ''empty'', export_formats = [''csv'', ''json'', ''pdf''], auth_error = None,
      callbacks =
        [(''collecting'', 0, 0, ''Collecting file list from Google Drive...''),
         (''error'', 0, 0, ''No files found to extract'')],
      extraction = Inr [],
      export_error = []\<rparr>"

definition one_file_job :: job where
  "one_file_job =
     \<lparr>base_name = ''report'', export_formats = [''csv'', ''json'', ''pdf''], auth_error = None,
      callbacks =
        [(''collecting'', 0, 0, ''Collecting file list from Google Drive...''),
         (''collecting'', 1, 0, ''Found 1 files so far...''),
         (''processing'', 0, 1, ''Processing 1 files with 1 workers...''),
         (''processing'', 1, 1, ''Processed 1/1 files...''),
         (''completed'', 1, 1, ''Successfully extracted 1 files!'')],
      extraction = Inr (all_metadata (sequential_loop stub_lib [item_a])),
      export_error = []\<rparr>"




definition overlapping_run :: "action list" where
  "overlapping_run =
     Start one_file_job # replicate 8 (Step 0) @ [Pause, Start empty_job, Step 1, Step 1]
       @ replicate 21 (Step 0) @ replicate 13 (Step 1)"

section \<open>Properties\<close>

declare str_nat.simps [simp del]

text \<open>
  C8. For every requested worker count the extractor's effective concurrency lies in the
  interval from 1 to 4: a request below 1 gives 1, a request above 4 gives 4, any other
  request is kept. When no worker count is requested the concurrency is 1, the
  sequential path.
\<close>

theorem C8_max_workers_clamped:
  "1 \<le> init_max_workers w \<and> init_max_workers w \<le> 4
   \<and> init_max_workers None = 1
   \<and> init_max_workers (Some n) = (if n < 1 then 1 else if 4 < n then 4 else n)"
  by (simp add: init_max_workers_def Let_def split: option.split)

subsection \<open>Records from items\<close>

lemma sorted_fields: "sort forensic_fields = [''creation_date_raw'', ''description'', ''file_type'', ''id'', ''md5_checksum'', ''mime_type'', ''modification_date_raw'', ''name'', ''size_bytes'', ''trashed'']"
  by (simp add: forensic_fields_def less_char_def)

lemma dget_append_other: "k \<noteq> k' \<Longrightarrow> dget (file @ [(k', v)]) k d = dget file k d"
  by (simp add: dget_def map_add_def split: option.splits)

lemma dget_append_same: "map_of file k = None \<Longrightarrow> dget (file @ [(k, v)]) k d = v"
  by (simp add: dget_def map_add_def split: option.splits)

lemma dget_absent: "map_of file k = None \<Longrightarrow> dget file k d = d"
  by (simp add: dget_def)

lemma py_strip_0: "py_strip ''0'' = ''0''"
  by (simp add: py_strip_def py_isspace_def)

lemma str_int_0: "str_int 0 = ''0''"
  by (simp add: str_int_def str_nat.simps)

lemma and_then_Inr: "and_then m f = Inr r \<longleftrightarrow> (\<exists>v. m = Inr v \<and> f v = Inr r)"
  by (cases m) (simp_all add: and_then_def)

lemma efm_Inr:
  "extract_file_metadata L file = Inr m \<longleftrightarrow>
     (\<exists>oe on le ln se perms pt ft pa.
        first_owner (dget file ''owners'' (PList [])) ''emailAddress'' = Inr oe
      \<and> first_owner (dget file ''owners'' (PList [])) ''displayName'' = Inr on
      \<and> attr_get (dget file ''lastModifyingUser'' (PDict [])) ''emailAddress'' (PStr ''N/A'') = Inr le
      \<and> attr_get (dget file ''lastModifyingUser'' (PDict [])) ''displayName'' (PStr ''N/A'') = Inr ln
      \<and> attr_get (dget file ''sharingUser'' (PDict [])) ''emailAddress'' (PStr ''N/A'') = Inr se
      \<and> py_iter (dget file ''permissions'' (PList [])) = Inr perms
      \<and> permission_pairs L perms = Inr pt
      \<and> get_file_type L (dget file ''mimeType'' (PStr [])) = Inr ft
      \<and> py_join ''; '' (dget file ''parents'' (PList [])) = Inr pa
      \<and> m = metadata_dict L file oe on le ln se (dget file ''name'' (PStr ''Unknown''))
               (dget file ''permissions'' (PList [])) pt ft pa)"
  unfolding extract_file_metadata_def Let_def and_then_Inr get_file_path_def
  by blast

lemma efm_nonempty: "extract_file_metadata L file = Inr m \<Longrightarrow> m \<noteq> []"
  by (auto simp: efm_Inr metadata_dict_def)

lemma first_owner_absent: "first_owner (PList []) k = Inr (PStr ''N/A'')"
  by (simp add: first_owner_def)

lemma forensic_file_metadata_dict:
  "forensic_file L (metadata_dict L file oe on le ln se fp perms pt ft pa) =
     [(''creation_date_raw'', stringify L (dget file ''createdTime'' (PStr ''N/A''))),
      (''description'', stringify L (dget file ''description'' (PStr []))),
      (''file_type'', stringify L ft),
      (''id'', stringify L (dget file ''id'' (PStr ''N/A''))),
      (''md5_checksum'', stringify L (dget file ''md5Checksum'' (PStr ''N/A''))),
      (''mime_type'', stringify L (dget file ''mimeType'' (PStr ''N/A''))),
      (''modification_date_raw'', stringify L (dget file ''modifiedTime'' (PStr ''N/A''))),
      (''name'', stringify L (dget file ''name'' (PStr ''N/A''))),
      (''size_bytes'', stringify L (dget file ''size'' (PStr ''0''))),
      (''trashed'', stringify L (dget file ''trashed'' (PBool False)))]"
  by (simp add: forensic_file_def sorted_fields metadata_dict_def dget_def)

lemma sentinel:
  assumes "extract_file_metadata L file = Inr m"
  shows "list_all (\<lambda>(raw, field, dflt). map_of file raw = None \<longrightarrow> map_of m field = Some dflt)
           sentinels"
proof -
  from assms obtain oe on le ln se perms pt ft pa where
    oe: "first_owner (dget file ''owners'' (PList [])) ''emailAddress'' = Inr oe"
    and on: "first_owner (dget file ''owners'' (PList [])) ''displayName'' = Inr on"
    and le: "attr_get (dget file ''lastModifyingUser'' (PDict [])) ''emailAddress'' (PStr ''N/A'') = Inr le"
    and ln: "attr_get (dget file ''lastModifyingUser'' (PDict [])) ''displayName'' (PStr ''N/A'') = Inr ln"
    and se: "attr_get (dget file ''sharingUser'' (PDict [])) ''emailAddress'' (PStr ''N/A'') = Inr se"
    and perms: "py_iter (dget file ''permissions'' (PList [])) = Inr perms"
    and pt: "permission_pairs L perms = Inr pt"
    and ft: "get_file_type L (dget file ''mimeType'' (PStr [])) = Inr ft"
    and pa: "py_join ''; '' (dget file ''parents'' (PList [])) = Inr pa"
    and m: "m = metadata_dict L file oe on le ln se (dget file ''name'' (PStr ''Unknown''))
               (dget file ''permissions'' (PList [])) pt ft pa"
    unfolding efm_Inr by blast
  have 1: "map_of file ''owners'' = None \<Longrightarrow> oe = PStr ''N/A'' \<and> on = PStr ''N/A''"
    using oe on by (simp add: dget_absent first_owner_absent)
  have 2: "map_of file ''lastModifyingUser'' = None \<Longrightarrow> le = PStr ''N/A'' \<and> ln = PStr ''N/A''"
    using le ln by (simp add: dget_absent dget_def)
  have 3: "map_of file ''sharingUser'' = None \<Longrightarrow> se = PStr ''N/A''"
    using se by (simp add: dget_absent dget_def)
  have 4: "map_of file ''permissions'' = None \<Longrightarrow> pt = [] \<and> dget file ''permissions'' (PList []) = PList []"
    using perms pt by (auto simp add: dget_absent)
  have 5: "map_of file ''mimeType'' = None \<Longrightarrow> ft = PStr []"
    using ft by (simp add: dget_absent get_file_type_def type_mapping_def str_upper_def)
  have 6: "map_of file ''parents'' = None \<Longrightarrow> pa = []"
    using pa by (simp add: dget_absent py_join_def)
  show ?thesis
    unfolding sentinels_def m metadata_dict_def
    by (simp add: 1 2 3 4 5 6 dget_absent format_datetime_def format_size_def)
qed

lemma size_explicit:
  assumes "map_of file ''size'' = None" and "extract_file_metadata L file = Inr m"
    and "v = PStr ''0'' \<or> v = PInt 0"
  shows "\<exists>m0. extract_file_metadata L (file @ [(''size'', v)]) = Inr m0
           \<and> map_of m0 ''size_bytes'' = Some v
           \<and> forensic_file L m0 = forensic_file L m"
proof -
  let ?file' = "file @ [(''size'', v)]"
  from assms(2) obtain oe on le ln se perms pt ft pa where
    oe: "first_owner (dget file ''owners'' (PList [])) ''emailAddress'' = Inr oe"
    and on: "first_owner (dget file ''owners'' (PList [])) ''displayName'' = Inr on"
    and le: "attr_get (dget file ''lastModifyingUser'' (PDict [])) ''emailAddress'' (PStr ''N/A'') = Inr le"
    and ln: "attr_get (dget file ''lastModifyingUser'' (PDict [])) ''displayName'' (PStr ''N/A'') = Inr ln"
    and se: "attr_get (dget file ''sharingUser'' (PDict [])) ''emailAddress'' (PStr ''N/A'') = Inr se"
    and perms: "py_iter (dget file ''permissions'' (PList [])) = Inr perms"
    and pt: "permission_pairs L perms = Inr pt"
    and ft: "get_file_type L (dget file ''mimeType'' (PStr [])) = Inr ft"
    and pa: "py_join ''; '' (dget file ''parents'' (PList [])) = Inr pa"
    and m: "m = metadata_dict L file oe on le ln se (dget file ''name'' (PStr ''Unknown''))
               (dget file ''permissions'' (PList [])) pt ft pa"
    unfolding efm_Inr by blast
  define m0 where "m0 = metadata_dict L ?file' oe on le ln se (dget ?file' ''name'' (PStr ''Unknown''))
               (dget ?file' ''permissions'' (PList [])) pt ft pa"
  have "extract_file_metadata L ?file' = Inr m0"
    unfolding efm_Inr m0_def using oe on le ln se perms pt ft pa
    by (simp add: dget_append_other)
  moreover have "map_of m0 ''size_bytes'' = Some v"
    using assms(1) by (simp add: m0_def metadata_dict_def dget_append_same)
  moreover have "forensic_file L m0 = forensic_file L m"
    unfolding m m0_def forensic_file_metadata_dict
    using assms(1,3)
    by (auto simp: dget_append_other dget_append_same dget_absent py_strip_0 str_int_0)
  ultimately show ?thesis by blast
qed

lemma attr_get_dict: "is_dict v \<Longrightarrow> \<exists>r. attr_get v k d = Inr r"
  by (cases v) simp_all

lemma first_owner_ok: "is_list_of is_dict owners \<Longrightarrow> \<exists>r. first_owner owners k = Inr r"
proof (cases owners)
  case (PList xs)
  assume "is_list_of is_dict owners"
  with PList show ?thesis
    by (cases xs) (auto simp: first_owner_def and_then_def dest: attr_get_dict)
qed simp_all

lemma permission_pairs_ok: "list_all is_dict perms \<Longrightarrow> \<exists>r. permission_pairs L perms = Inr r"
proof (induction perms)
  case Nil
  show ?case by simp
next
  case (Cons perm perms)
  then obtain d r where "perm = PDict d" "permission_pairs L perms = Inr r"
    by (cases perm) auto
  then show ?case by (simp add: and_then_def)
qed

lemma the_strs_ok: "list_all is_str vs \<Longrightarrow> \<exists>ss. the_strs vs = Inr ss"
proof (induction vs)
  case Nil
  show ?case by simp
next
  case (Cons v vs)
  then obtain s ss where "v = PStr s" "the_strs vs = Inr ss"
    by (cases v) auto
  then show ?case by simp
qed

lemma py_join_ok: "is_list_of is_str v \<Longrightarrow> \<exists>s. py_join sep v = Inr s"
  by (cases v) (auto simp: py_join_def dest: the_strs_ok)

lemma get_file_type_ok: "is_str v \<Longrightarrow> \<exists>t. get_file_type L v = Inr t"
  by (cases v) (simp_all add: get_file_type_def)

lemma absent_or_dget: "absent_or P file k \<Longrightarrow> P d \<Longrightarrow> P (dget file k d)"
  by (simp add: absent_or_def dget_def split: option.splits)

lemma api_shaped_normalizes:
  assumes "api_shaped file"
  shows "\<exists>m. extract_file_metadata L file = Inr m"
proof -
  from assms have o: "is_list_of is_dict (dget file ''owners'' (PList []))"
    and l: "is_dict (dget file ''lastModifyingUser'' (PDict []))"
    and s: "is_dict (dget file ''sharingUser'' (PDict []))"
    and p: "is_list_of is_dict (dget file ''permissions'' (PList []))"
    and t: "is_str (dget file ''mimeType'' (PStr []))"
    and q: "is_list_of is_str (dget file ''parents'' (PList []))"
    by (simp_all add: api_shaped_def absent_or_dget)
  from p obtain ps where ps: "dget file ''permissions'' (PList []) = PList ps" "list_all is_dict ps"
    by (cases "dget file ''permissions'' (PList [])") auto
  show ?thesis
    unfolding efm_Inr
    using first_owner_ok [OF o, of "''emailAddress''"] first_owner_ok [OF o, of "''displayName''"]
      attr_get_dict [OF l, of "''emailAddress''" "PStr ''N/A''"]
      attr_get_dict [OF l, of "''displayName''" "PStr ''N/A''"]
      attr_get_dict [OF s, of "''emailAddress''" "PStr ''N/A''"]
      permission_pairs_ok [OF ps(2), of L]
      get_file_type_ok [OF t, of L] py_join_ok [OF q, of "''; ''"] ps(1)
    by auto
qed

lemma process_one_failure:
  "extract_file_metadata L file = Inl e \<Longrightarrow>
   process_one L st file =
     st\<lparr>errors := errors st @ [dget file ''id'' (PStr ''unknown'')],
        processed_count := Suc (processed_count st)\<rparr>"
  by (simp add: process_one_def process_file_def)

lemma process_one_success:
  "extract_file_metadata L file = Inr m \<Longrightarrow>
   process_one L st file =
     st\<lparr>all_metadata := all_metadata st @ [m], processed_count := Suc (processed_count st)\<rparr>"
  by (simp add: process_one_def process_file_def efm_nonempty)

lemma efm_empty:
  "extract_file_metadata L [] = Inr (map (\<lambda>(raw, field, dflt). (field, dflt)) sentinels)"
  by (simp add: efm_Inr metadata_dict_def sentinels_def dget_def first_owner_def
      get_file_type_def type_mapping_def str_upper_def py_join_def format_datetime_def
      format_size_def)

text \<open>
  C7. \<open>extract_file_metadata\<close> returns a record for every item whose structured
  fields, where present, have the shape the API gives them, whichever fields are missing;
  in the record every missing field has its value of the table \<open>sentinels\<close>, and
  the item with no field at all gives exactly that table. When the function does
  raise, on a malformed item, \<open>_process_file\<close> returns \<open>None\<close> in place of the
  exception, and the processing loop records the item's id (or \<open>'unknown'\<close>) in
  \<open>errors\<close> and goes on.
\<close>

theorem C7_normalize_never_fails:
  "(api_shaped file \<longrightarrow>
      (\<exists>m. extract_file_metadata L file = Inr m \<and> process_file L file = Some m
         \<and> list_all (\<lambda>(raw, field, dflt). map_of file raw = None \<longrightarrow> map_of m field = Some dflt)
               sentinels))
   \<and> ((\<exists>e. extract_file_metadata L file = Inl e) \<longrightarrow>
        process_file L file = None
        \<and> process_one L st file =
            st\<lparr>errors := errors st @ [dget file ''id'' (PStr ''unknown'')],
               processed_count := Suc (processed_count st)\<rparr>)
   \<and> extract_file_metadata L [] = Inr (map (\<lambda>(raw, field, dflt). (field, dflt)) sentinels)"
proof (intro conjI impI)
  assume "api_shaped file"
  then obtain m where m: "extract_file_metadata L file = Inr m"
    using api_shaped_normalizes by blast
  then show "\<exists>m. extract_file_metadata L file = Inr m \<and> process_file L file = Some m
         \<and> list_all (\<lambda>(raw, field, dflt). map_of file raw = None \<longrightarrow> map_of m field = Some dflt)
               sentinels"
    using sentinel [OF m] by (simp add: process_file_def)
next
  assume "\<exists>e. extract_file_metadata L file = Inl e"
  then show "process_file L file = None"
    by (auto simp: process_file_def)
next
  assume "\<exists>e. extract_file_metadata L file = Inl e"
  then show "process_one L st file =
            st\<lparr>errors := errors st @ [dget file ''id'' (PStr ''unknown'')],
               processed_count := Suc (processed_count st)\<rparr>"
    by (auto simp: process_one_failure)
next
  show "extract_file_metadata L [] = Inr (map (\<lambda>(raw, field, dflt). (field, dflt)) sentinels)"
    by (rule efm_empty)
qed

theorem C7_normalize_never_fails_witness:
  "\<forall>L. api_shaped [(''name'', PStr ''a.txt''), (''owners'', PList [])]
     \<and> (\<exists>m. extract_file_metadata L [(''name'', PStr ''a.txt''), (''owners'', PList [])] = Inr m
            \<and> map_of m ''md5_checksum'' = Some (PStr ''N/A''))
     \<and> extract_file_metadata L [(''id'', PStr ''x''), (''owners'', PInt 5)] = Inl TypeError
     \<and> process_file L [(''id'', PStr ''x''), (''owners'', PInt 5)] = None"
proof (intro allI conjI)
  fix L
  let ?good = "[(''name'', PStr ''a.txt''), (''owners'', PList [])]"
  let ?bad = "[(''id'', PStr ''x''), (''owners'', PInt 5)]"
  show shaped: "api_shaped ?good"
    by (simp add: api_shaped_def absent_or_def)
  show "\<exists>m. extract_file_metadata L ?good = Inr m \<and> map_of m ''md5_checksum'' = Some (PStr ''N/A'')"
    using C7_normalize_never_fails [of ?good L] shaped
    by (auto simp: sentinels_def)
  show bad: "extract_file_metadata L ?bad = Inl TypeError"
    by (simp add: extract_file_metadata_def dget_def first_owner_def and_then_def)
  show "process_file L ?bad = None"
    using C7_normalize_never_fails [of ?bad L] bad by simp
qed

lemma fingerprint_single:
  "create_forensic_hash_data L [m] = Inr (PDict [(''files'', PList [PDict (forensic_file L m)])])"
  by (simp add: create_forensic_hash_data_def sorted_by_id_def and_then_def)

text \<open>
  C10. For every item that has no \<open>size\<close> field and that \<open>extract_file_metadata\<close>
  turns into a record, the record's \<open>size_bytes\<close> is the string \<open>"0"\<close> and its
  \<open>size_formatted\<close> is \<open>"N/A"\<close>. The same item with a size of 0 added, as the
  string \<open>"0"\<close> of the wire format or as the integer 0, gives a record with the same
  forensic entry, hence the same forensic hash data.
\<close>

theorem C10_absent_size_reads_as_zero:
  assumes "map_of file ''size'' = None" and "extract_file_metadata L file = Inr m"
  shows "map_of m ''size_bytes'' = Some (PStr ''0'')
     \<and> map_of m ''size_formatted'' = Some (PStr ''N/A'')
     \<and> (\<exists>m0. extract_file_metadata L (file @ [(''size'', PStr ''0'')]) = Inr m0
            \<and> map_of m0 ''size_bytes'' = Some (PStr ''0'')
            \<and> forensic_file L m0 = forensic_file L m
            \<and> create_forensic_hash_data L [m0] = create_forensic_hash_data L [m])
     \<and> (\<exists>m0. extract_file_metadata L (file @ [(''size'', PInt 0)]) = Inr m0
            \<and> map_of m0 ''size_bytes'' = Some (PInt 0)
            \<and> forensic_file L m0 = forensic_file L m
            \<and> create_forensic_hash_data L [m0] = create_forensic_hash_data L [m])"
proof -
  have "map_of m ''size_bytes'' = Some (PStr ''0'')"
    and "map_of m ''size_formatted'' = Some (PStr ''N/A'')"
    using sentinel [OF assms(2)] assms(1) by (simp_all add: sentinels_def)
  moreover from size_explicit [OF assms, of "PStr ''0''"] size_explicit [OF assms, of "PInt 0"]
  have "\<exists>m0. extract_file_metadata L (file @ [(''size'', PStr ''0'')]) = Inr m0
            \<and> map_of m0 ''size_bytes'' = Some (PStr ''0'')
            \<and> forensic_file L m0 = forensic_file L m
            \<and> create_forensic_hash_data L [m0] = create_forensic_hash_data L [m]"
    and "\<exists>m0. extract_file_metadata L (file @ [(''size'', PInt 0)]) = Inr m0
            \<and> map_of m0 ''size_bytes'' = Some (PInt 0)
            \<and> forensic_file L m0 = forensic_file L m
            \<and> create_forensic_hash_data L [m0] = create_forensic_hash_data L [m]"
    by (auto simp: fingerprint_single)
  ultimately show ?thesis by blast
qed

theorem C10_absent_size_reads_as_zero_witness:
  "\<forall>L. map_of [(''id'', PStr ''f1'')] ''size'' = None
     \<and> (\<exists>m m0. extract_file_metadata L [(''id'', PStr ''f1'')] = Inr m
            \<and> map_of m ''size_bytes'' = Some (PStr ''0'')
            \<and> extract_file_metadata L [(''id'', PStr ''f1''), (''size'', PInt 0)] = Inr m0
            \<and> map_of m0 ''size_bytes'' = Some (PInt 0)
            \<and> create_forensic_hash_data L [m0] = create_forensic_hash_data L [m])"
proof (intro allI conjI)
  fix L
  let ?file = "[(''id'', PStr ''f1'')]"
  show absent: "map_of ?file ''size'' = None"
    by simp
  have "api_shaped ?file"
    by (simp add: api_shaped_def absent_or_def)
  then obtain m where m: "extract_file_metadata L ?file = Inr m"
    using api_shaped_normalizes by blast
  from C10_absent_size_reads_as_zero [OF absent m] m
  show "\<exists>m m0. extract_file_metadata L ?file = Inr m
            \<and> map_of m ''size_bytes'' = Some (PStr ''0'')
            \<and> extract_file_metadata L [(''id'', PStr ''f1''), (''size'', PInt 0)] = Inr m0
            \<and> map_of m0 ''size_bytes'' = Some (PInt 0)
            \<and> create_forensic_hash_data L [m0] = create_forensic_hash_data L [m]"
    by auto
qed

subsection \<open>The processing loops\<close>

lemma process_one_Some:
  "process_file L file = Some m \<Longrightarrow>
   process_one L st file =
     st\<lparr>all_metadata := all_metadata st @ [m], processed_count := Suc (processed_count st)\<rparr>"
  by (auto simp: process_one_def process_file_def efm_nonempty split: sum.splits)

lemma process_one_None:
  "process_file L file = None \<Longrightarrow>
   process_one L st file =
     st\<lparr>errors := errors st @ [dget file ''id'' (PStr ''unknown'')],
        processed_count := Suc (processed_count st)\<rparr>"
  by (simp add: process_one_def)

lemma foldl_process_one:
  "foldl (process_one L) st files =
     st\<lparr>all_metadata := all_metadata st @ List.map_filter (process_file L) files,
        errors := errors st
          @ map (\<lambda>f. dget f ''id'' (PStr ''unknown'')) (filter (\<lambda>f. process_file L f = None) files),
        processed_count := processed_count st + length files\<rparr>"
proof (induction files arbitrary: st)
  case Nil
  show ?case by (simp add: List.map_filter_simps)
next
  case (Cons f files)
  show ?case
  proof (cases "process_file L f")
    case None
    then show ?thesis
      by (simp add: Cons.IH process_one_None List.map_filter_simps)
  next
    case (Some m)
    then show ?thesis
      by (simp add: Cons.IH process_one_Some List.map_filter_simps)
  qed
qed

lemma map_filter_append:
  "List.map_filter f (xs @ ys) = List.map_filter f xs @ List.map_filter f ys"
  by (simp add: List.map_filter_def)

lemma sequential_loop_eq:
  "sequential_loop L files =
     \<lparr>all_metadata = List.map_filter (process_file L) files,
      errors = map (\<lambda>f. dget f ''id'' (PStr ''unknown'')) (filter (\<lambda>f. process_file L f = None) files),
      processed_count = length files\<rparr>"
  by (simp add: sequential_loop_def foldl_process_one)

lemma concat_batches: "0 < n \<Longrightarrow> concat (map snd (batches n k xs)) = xs"
proof (induction n k xs rule: batches.induct)
  case (1 batch_size batch_start xs)
  then show ?case
    by (cases "xs = []") (simp_all add: batches.simps [of batch_size batch_start xs])
qed

lemma mset_failures:
  assumes "mset xs = mset ys"
  shows "mset (map g (filter P xs)) = mset (map g (filter P ys))"
proof -
  have "mset (map g (filter P xs)) = image_mset g (filter_mset P (mset xs))"
    by simp
  also have "\<dots> = image_mset g (filter_mset P (mset ys))"
    by (simp only: assms)
  also have "\<dots> = mset (map g (filter P ys))"
    by simp
  finally show ?thesis .
qed

lemma map_filter_as_map:
  "List.map_filter f xs = map (\<lambda>x. the (f x)) (filter (\<lambda>x. f x \<noteq> None) xs)"
  by (simp add: List.map_filter_def)

lemma mset_map_filter:
  "mset xs = mset ys \<Longrightarrow> mset (List.map_filter f xs) = mset (List.map_filter f ys)"
  unfolding map_filter_as_map by (rule mset_failures)

lemma run_batch_eq:
  "run_batch L completion st (i, b) =
     st\<lparr>all_metadata := all_metadata st @ List.map_filter (process_file L) (completion i b),
        errors := errors st
          @ map (\<lambda>f. dget f ''id'' (PStr ''unknown''))
              (filter (\<lambda>f. process_file L f = None) (completion i b)),
        processed_count := processed_count st + length (completion i b)\<rparr>"
  by (simp add: run_batch_def foldl_process_one)

lemma foldl_batches:
  assumes "\<forall>i b. mset (completion i b) = mset b"
  shows "mset (all_metadata (foldl (run_batch L completion) st bs))
           = mset (all_metadata st) + mset (List.map_filter (process_file L) (concat (map snd bs)))
       \<and> mset (errors (foldl (run_batch L completion) st bs))
           = mset (errors st) + mset (map (\<lambda>f. dget f ''id'' (PStr ''unknown''))
                 (filter (\<lambda>f. process_file L f = None) (concat (map snd bs))))
       \<and> processed_count (foldl (run_batch L completion) st bs)
           = processed_count st + length (concat (map snd bs))"
proof (induction bs arbitrary: st)
  case Nil
  show ?case by (simp add: List.map_filter_simps)
next
  case (Cons ib bs)
  obtain i b where ib: "ib = (i, b)" by (cases ib)
  have c: "mset (completion i b) = mset b" using assms by blast
  have l: "length (completion i b) = length b"
    using c by (metis size_mset)
  have step: "foldl (run_batch L completion) st (ib # bs)
      = foldl (run_batch L completion) (run_batch L completion st (i, b)) bs"
    by (simp add: ib)
  show ?case
    unfolding step
    using Cons.IH [of "run_batch L completion st (i, b)"]
      mset_map_filter [OF c, of "process_file L"]
      mset_failures [OF c, of "\<lambda>f. dget f ''id'' (PStr ''unknown'')" "\<lambda>f. process_file L f = None"]
    by (simp add: run_batch_eq l ib map_filter_append)
qed

lemma parallel_loop_mset:
  assumes "\<forall>i b. mset (completion i b) = mset b"
  shows "mset (all_metadata (parallel_loop L completion files)) = mset (List.map_filter (process_file L) files)
       \<and> mset (errors (parallel_loop L completion files))
           = mset (map (\<lambda>f. dget f ''id'' (PStr ''unknown'')) (filter (\<lambda>f. process_file L f = None) files))
       \<and> processed_count (parallel_loop L completion files) = length files"
proof (cases "files = []")
  case True
  then show ?thesis
    by (simp add: parallel_loop_def batches.simps [of _ _ "[]"] List.map_filter_simps)
next
  case False
  then have "0 < min 10 (length files)" by simp
  from concat_batches [OF this, of 0 files] foldl_batches [OF assms, of L _ "batches (min 10 (length files)) 0 files"]
  show ?thesis
    by (simp add: parallel_loop_def Let_def)
qed

lemma process_items_mset:
  assumes "\<forall>i b. mset (completion i b) = mset b"
  shows "mset (all_metadata (process_items L w completion files)) = mset (List.map_filter (process_file L) files)
       \<and> mset (errors (process_items L w completion files))
           = mset (map (\<lambda>f. dget f ''id'' (PStr ''unknown'')) (filter (\<lambda>f. process_file L f = None) files))
       \<and> processed_count (process_items L w completion files) = length files"
  using parallel_loop_mset [OF assms, of L files]
  by (simp add: process_items_def sequential_loop_eq)

lemma extract_folder_whole_drive:
  assumes "list_whole_drive (list_pages D (WholeDrive (\<not> include_trashed))) [] = Inr all_files"
    and "all_files \<noteq> []"
  shows "extract_folder L D w completion None include_trashed
           = Inr (all_metadata (process_items L w completion all_files))"
  using assms by (simp add: extract_folder_def)

lemma extract_folder_from_root:
  assumes "collect_from_root L D include_trashed (PStr fid) = Inr (all_files, V)"
    and "fid \<noteq> []" and "all_files \<noteq> []"
  shows "extract_folder L D w completion (Some fid) include_trashed
           = Inr (all_metadata (process_items L w completion all_files))"
  using assms by (simp add: extract_folder_def)

text \<open>
  C3 (as the code has it). \<open>extract_folder\<close> returns the extracted records only.
  The failed items are recorded, each under its id (or \<open>'unknown'\<close>), in the
  local list \<open>errors\<close>, which is not part of what is returned. On the sequential
  path the records are those of the items that \<open>_process_file\<close> could turn into a
  record, in item order, the failures the ids of the others, and every item is counted;
  on the thread pool path the same holds up to the order in which the futures of a batch
  complete. A failure neither ends the batch nor the loop.
\<close>

theorem C3_failures_recorded_not_returned:
  "process_items L 1 completion files =
     \<lparr>all_metadata = List.map_filter (process_file L) files,
      errors = map (\<lambda>f. dget f ''id'' (PStr ''unknown''))
                 (filter (\<lambda>f. process_file L f = None) files),
      processed_count = length files\<rparr>
   \<and> ((\<forall>i b. mset (completion i b) = mset b) \<longrightarrow>
        mset (all_metadata (process_items L w completion files))
          = mset (List.map_filter (process_file L) files)
        \<and> mset (errors (process_items L w completion files))
          = mset (map (\<lambda>f. dget f ''id'' (PStr ''unknown''))
                   (filter (\<lambda>f. process_file L f = None) files))
        \<and> processed_count (process_items L w completion files) = length files)
   \<and> (list_whole_drive (list_pages D (WholeDrive (\<not> include_trashed))) [] = Inr all_files
        \<and> all_files \<noteq> [] \<longrightarrow>
        extract_folder L D w completion None include_trashed
          = Inr (all_metadata (process_items L w completion all_files)))
   \<and> (collect_from_root L D include_trashed (PStr fid) = Inr (all_files, V)
        \<and> fid \<noteq> [] \<and> all_files \<noteq> [] \<longrightarrow>
        extract_folder L D w completion (Some fid) include_trashed
          = Inr (all_metadata (process_items L w completion all_files)))"
  using process_items_mset [of completion L w files]
    extract_folder_whole_drive [of D include_trashed all_files L w completion]
    extract_folder_from_root [of L D include_trashed fid all_files V w completion]
  by (simp add: process_items_def sequential_loop_eq)


theorem C3_failures_recorded_not_returned_witness:
  "(\<forall>i b. mset (reverse_order i b) = mset b)
   \<and> all_metadata (process_items stub_lib 4 reverse_order [item_b, item_a])
       = List.map_filter (process_file stub_lib) [item_a]
   \<and> errors (process_items stub_lib 4 reverse_order [item_b, item_a]) = [PStr ''b'']
   \<and> list_whole_drive (list_pages (flat_drive [item_b, item_a]) (WholeDrive (\<not> False))) []
       = Inr [item_b, item_a]
   \<and> extract_folder stub_lib (flat_drive [item_b, item_a]) 4 reverse_order None False
       = Inr (all_metadata (process_items stub_lib 4 reverse_order [item_b, item_a]))
   \<and> collect_from_root stub_lib (folder_drive [item_b, item_a]) False (PStr ''root'')
       = Inr ([item_b, item_a], {PStr ''root''})
   \<and> extract_folder stub_lib (folder_drive [item_b, item_a]) 4 reverse_order (Some ''root'') False
       = Inr (all_metadata (process_items stub_lib 4 reverse_order [item_b, item_a]))"
proof -
  have perm: "\<forall>i b. mset (reverse_order i b) = mset b"
    by (simp add: reverse_order_def)
  have flat: "list_whole_drive (list_pages (flat_drive [item_b, item_a]) (WholeDrive (\<not> False))) []
       = Inr [item_b, item_a]"
    by (simp add: flat_drive_def list_pages_def)
  have root: "collect_from_root stub_lib (folder_drive [item_b, item_a]) False (PStr ''root'')
       = Inr ([item_b, item_a], {PStr ''root''})"
    by (simp add: collect_from_root_def stub_lib_def numeral_eq_Suc folder_drive_def
        children_of_def list_pages_def is_folder_def item_a_def item_b_def dget_def)
  have a: "all_metadata (process_items stub_lib 4 reverse_order [item_b, item_a])
       = List.map_filter (process_file stub_lib) [item_a]"
    by code_simp
  have b: "errors (process_items stub_lib 4 reverse_order [item_b, item_a]) = [PStr ''b'']"
    by code_simp
  have ne: "[item_b, item_a] \<noteq> []" "''root'' \<noteq> []"
    by simp_all
  from C3_failures_recorded_not_returned [of stub_lib reverse_order "[item_b, item_a]" 4
      "flat_drive [item_b, item_a]" False "[item_b, item_a]"] perm flat ne
  have 1: "extract_folder stub_lib (flat_drive [item_b, item_a]) 4 reverse_order None False
       = Inr (all_metadata (process_items stub_lib 4 reverse_order [item_b, item_a]))"
    by blast
  from C3_failures_recorded_not_returned [of stub_lib reverse_order "[item_b, item_a]" 4
      "folder_drive [item_b, item_a]" False "[item_b, item_a]" "''root''" "{PStr ''root''}"]
    perm root ne
  have 2: "extract_folder stub_lib (folder_drive [item_b, item_a]) 4 reverse_order (Some ''root'') False
       = Inr (all_metadata (process_items stub_lib 4 reverse_order [item_b, item_a]))"
    by blast
  from perm a b flat 1 root 2 show ?thesis
    by blast
qed

text \<open>
  The returned value is the same whether or not an item failed, while the failures
  recorded differ: the failures are not returned.
\<close>

theorem C3_counterexample:
  "extract_folder stub_lib (flat_drive [item_a, item_b]) 1 submission_order None False
     = extract_folder stub_lib (flat_drive [item_a]) 1 submission_order None False
   \<and> errors (process_items stub_lib 1 submission_order [item_a, item_b]) = [PStr ''b'']
   \<and> errors (process_items stub_lib 1 submission_order [item_a]) = []"
  by code_simp

text \<open>
  C6. Whatever the order in which the futures of each batch complete, the thread pool
  path (any worker count other than 1, so 4 among them) produces the same records and the
  same failures as the sequential path, as multisets and hence as sets, and counts the
  same number of items; \<open>extract_folder\<close> returns the same records up to order, the
  same error, or the same empty list.
\<close>

theorem C6_sequential_parallel_equivalent:
  assumes "\<forall>i b. mset (completion i b) = mset b"
  shows "mset (all_metadata (process_items L w completion files))
           = mset (all_metadata (process_items L 1 completion files))
       \<and> set (all_metadata (process_items L w completion files))
           = set (all_metadata (process_items L 1 completion files))
       \<and> mset (errors (process_items L w completion files))
           = mset (errors (process_items L 1 completion files))
       \<and> set (errors (process_items L w completion files))
           = set (errors (process_items L 1 completion files))
       \<and> processed_count (process_items L w completion files)
           = processed_count (process_items L 1 completion files)
       \<and> map_sum id mset (extract_folder L D w completion folder_id include_trashed)
           = map_sum id mset (extract_folder L D 1 completion folder_id include_trashed)"
proof -
  have m: "mset (all_metadata (process_items L w completion files))
           = mset (all_metadata (process_items L 1 completion files))"
    and e: "mset (errors (process_items L w completion files))
           = mset (errors (process_items L 1 completion files))"
    and c: "processed_count (process_items L w completion files)
           = processed_count (process_items L 1 completion files)" for files
    using process_items_mset [OF assms, of L w files] process_items_mset [OF assms, of L 1 files]
    by simp_all
  have "map_sum id mset (extract_folder L D w completion folder_id include_trashed)
           = map_sum id mset (extract_folder L D 1 completion folder_id include_trashed)"
    by (simp add: extract_folder_def m split: option.splits sum.splits)
  with m [of files] e [of files] c [of files] show ?thesis
    by (metis set_mset_mset)
qed

theorem C6_sequential_parallel_equivalent_witness:
  "(\<forall>i b. mset (reverse_order i b) = mset b)
   \<and> mset (all_metadata (process_items stub_lib 4 reverse_order [item_a, item_b, item_a]))
       = mset (all_metadata (process_items stub_lib 1 reverse_order [item_a, item_b, item_a]))
   \<and> errors (process_items stub_lib 4 reverse_order [item_a, item_b, item_a]) = [PStr ''b'']
   \<and> errors (process_items stub_lib 1 reverse_order [item_a, item_b, item_a]) = [PStr ''b'']
   \<and> length (all_metadata (process_items stub_lib 1 reverse_order [item_a, item_b, item_a])) = 2"
proof -
  have perm: "\<forall>i b. mset (reverse_order i b) = mset b"
    by (simp add: reverse_order_def)
  have "errors (process_items stub_lib 4 reverse_order [item_a, item_b, item_a]) = [PStr ''b'']"
    and "errors (process_items stub_lib 1 reverse_order [item_a, item_b, item_a]) = [PStr ''b'']"
    and "length (all_metadata (process_items stub_lib 1 reverse_order [item_a, item_b, item_a])) = 2"
    by code_simp+
  with C6_sequential_parallel_equivalent [OF perm, of stub_lib 4 "[item_a, item_b, item_a]"] perm
  show ?thesis by blast
qed

subsection \<open>The forensic hash data\<close>

lemma insort_key_map:
  "insort_key f (g x) (map g xs) = map g (insort_key (\<lambda>x. f (g x)) x xs)"
  by (induction xs) simp_all

lemma sort_key_map:
  "sort_key f (map g xs) = map g (sort_key (\<lambda>x. f (g x)) xs)"
  by (induction xs) (simp_all add: insort_key_map)

lemma insort_key_cong_key:
  "(\<And>y. y \<in> insert x (set xs) \<Longrightarrow> f y = g y) \<Longrightarrow> insort_key f x xs = insort_key g x xs"
  by (induction xs) auto

lemma sort_key_cong_key:
  "(\<And>y. y \<in> set xs \<Longrightarrow> f y = g y) \<Longrightarrow> sort_key f xs = sort_key g xs"
proof (induction xs)
  case Nil
  show ?case by simp
next
  case (Cons x xs)
  then have "sort_key f xs = sort_key g xs" by simp
  moreover have "insort_key f x (sort_key g xs) = insort_key g x (sort_key g xs)"
    by (rule insort_key_cong_key) (use Cons.prems in auto)
  ultimately show ?case by simp
qed

lemma sort_key_perm:
  assumes "mset ys = mset xs" and "inj_on f (set xs)"
  shows "sort_key f ys = sort_key f xs"
proof -
  have "sort_key f xs = sort_key f ys"
    by (rule sort_key_inj_key_eq) (use assms in simp_all)
  then show ?thesis by simp
qed

lemma sorted_by_id_strs:
  "list_all (\<lambda>x. is_str (id_key x)) xs
   \<Longrightarrow> sorted_by_id xs = Inr (sort_key (\<lambda>x. the_str (id_key x)) xs)"
  by (cases xs rule: list.exhaust; cases "tl xs") (auto simp: sorted_by_id_def)

lemma the_str_inj: "is_str a \<Longrightarrow> is_str b \<Longrightarrow> the_str a = the_str b \<Longrightarrow> a = b"
  by (cases a; cases b) simp_all

lemma str_key_inj:
  assumes "list_all (\<lambda>x. is_str (id_key x)) xs" and "inj_on id_key (set xs)"
  shows "inj_on (\<lambda>x. the_str (id_key x)) (set xs)"
proof (rule inj_onI)
  fix x y assume "x \<in> set xs" "y \<in> set xs" "the_str (id_key x) = the_str (id_key y)"
  moreover from this assms(1) have "is_str (id_key x)" "is_str (id_key y)"
    by (simp_all add: list_all_iff)
  ultimately have "id_key x = id_key y" by (simp add: the_str_inj)
  with assms(2) \<open>x \<in> set xs\<close> \<open>y \<in> set xs\<close> show "x = y"
    by (simp add: inj_on_def)
qed

lemma fingerprint_strs:
  "list_all (\<lambda>x. is_str (id_key x)) xs \<Longrightarrow>
   create_forensic_hash_data L xs =
     Inr (PDict [(''files'',
       PList (map (\<lambda>x. PDict (forensic_file L x)) (sort_key (\<lambda>x. the_str (id_key x)) xs)))])"
  by (simp add: create_forensic_hash_data_def sorted_by_id_strs and_then_def)

lemma fingerprint_permutation:
  assumes "mset ys = mset xs" and "list_all (\<lambda>x. is_str (id_key x)) xs" and "inj_on id_key (set xs)"
  shows "create_forensic_hash_data L ys = create_forensic_hash_data L xs"
proof -
  from assms(1) have "set ys = set xs" by (rule mset_eq_setD)
  with assms(2) have ys: "list_all (\<lambda>x. is_str (id_key x)) ys"
    by (simp add: list_all_iff)
  show ?thesis
    unfolding fingerprint_strs [OF ys] fingerprint_strs [OF assms(2)]
    using sort_key_perm [OF assms(1) str_key_inj [OF assms(2,3)]] by simp
qed

lemma create_alt:
  "create_forensic_hash_data L m =
     (case sorted_by_id m of
        Inl e \<Rightarrow> Inl e
      | Inr s \<Rightarrow> Inr (PDict [(''files'', PList (map (\<lambda>x. PDict (forensic_file L x)) s))]))"
  by (simp add: create_forensic_hash_data_def and_then_def)

lemma fingerprint_pointwise:
  assumes "list_all2 (\<lambda>x y. id_key y = id_key x \<and> forensic_file L y = forensic_file L x) xs ys"
  shows "create_forensic_hash_data L ys = create_forensic_hash_data L xs"
proof -
  define zs where "zs = zip xs ys"
  from assms have len: "length xs = length ys"
    by (rule list_all2_lengthD)
  then have xs: "xs = map fst zs" and ys: "ys = map snd zs"
    by (simp_all add: zs_def)
  from assms have rel: "\<And>p. p \<in> set zs \<Longrightarrow>
      id_key (snd p) = id_key (fst p) \<and> forensic_file L (snd p) = forensic_file L (fst p)"
    by (auto simp: zs_def list_all2_iff)
  have srt: "map (\<lambda>x. PDict (forensic_file L x)) (sort_key (\<lambda>x. k (id_key x)) ys)
           = map (\<lambda>x. PDict (forensic_file L x)) (sort_key (\<lambda>x. k (id_key x)) xs)"
    for k :: "pyval \<Rightarrow> 'k::linorder"
  proof -
    let ?s = "sort_key (\<lambda>p. k (id_key (fst p))) zs"
    have "sort_key (\<lambda>p. k (id_key (snd p))) zs = ?s"
      by (rule sort_key_cong_key) (simp add: rel)
    then have 1: "sort_key (\<lambda>x. k (id_key x)) ys = map snd ?s"
      unfolding ys sort_key_map by simp
    have 2: "sort_key (\<lambda>x. k (id_key x)) xs = map fst ?s"
      unfolding xs sort_key_map by simp
    have "set ?s = set zs" by simp
    then have "map (\<lambda>x. PDict (forensic_file L x)) (map snd ?s)
        = map (\<lambda>x. PDict (forensic_file L x)) (map fst ?s)"
      unfolding map_map by (intro map_cong refl) (simp add: rel)
    then show ?thesis
      unfolding 1 2 .
  qed
  have plain: "map (\<lambda>x. PDict (forensic_file L x)) ys = map (\<lambda>x. PDict (forensic_file L x)) xs"
    unfolding xs ys map_map by (intro map_cong refl) (simp add: rel)
  have ids: "map id_key ys = map id_key xs"
    unfolding xs ys map_map by (intro map_cong refl) (simp add: rel)
  have conds: "list_all (\<lambda>x. P (id_key x)) ys = list_all (\<lambda>x. P (id_key x)) xs" for P
  proof -
    have "list_all P (map id_key ys) = list_all P (map id_key xs)"
      by (simp only: ids)
    then show ?thesis
      by (simp only: list.pred_map comp_def)
  qed
  have "map_sum id (map (\<lambda>x. PDict (forensic_file L x))) (sorted_by_id ys)
      = map_sum id (map (\<lambda>x. PDict (forensic_file L x))) (sorted_by_id xs)"
  proof (cases "length ys \<le> 1")
    case True
    then show ?thesis
      by (simp add: sorted_by_id_def len plain)
  next
    case long: False
    show ?thesis
    proof (cases "list_all (\<lambda>x. is_str (id_key x)) ys")
      case True
      with long conds [of is_str]
      have "sorted_by_id ys = Inr (sort_key (\<lambda>x. the_str (id_key x)) ys)"
        and "sorted_by_id xs = Inr (sort_key (\<lambda>x. the_str (id_key x)) xs)"
        by (simp_all add: sorted_by_id_def len)
      then show ?thesis
        by (simp add: srt [of the_str])
    next
      case no_strs: False
      show ?thesis
      proof (cases "list_all (\<lambda>x. is_num (id_key x)) ys")
        case True
        with long no_strs conds [of is_str] conds [of is_num]
        have "sorted_by_id ys = Inr (sort_key (\<lambda>x. the_num (id_key x)) ys)"
          and "sorted_by_id xs = Inr (sort_key (\<lambda>x. the_num (id_key x)) xs)"
          by (simp_all add: sorted_by_id_def len)
        then show ?thesis
          by (simp add: srt [of the_num])
      next
        case False
        with long no_strs conds [of is_str] conds [of is_num]
        have "sorted_by_id ys = Inl TypeError" and "sorted_by_id xs = Inl TypeError"
          by (simp_all add: sorted_by_id_def len)
        then show ?thesis
          by simp
      qed
    qed
  qed
  then show ?thesis
    unfolding create_alt
    by (cases "sorted_by_id ys"; cases "sorted_by_id xs") simp_all
qed

lemma set_sort_fields: "set (sort forensic_fields) = set forensic_fields"
  by simp

lemma forensic_file_cong:
  assumes "\<forall>f\<in>set forensic_fields. map_of y f = map_of x f"
  shows "forensic_file L y = forensic_file L x" and "id_key y = id_key x"
proof -
  from assms have "\<And>f. f \<in> set (sort forensic_fields) \<Longrightarrow> dget y f (PStr []) = dget x f (PStr [])"
    by (simp add: dget_def)
  then show "forensic_file L y = forensic_file L x"
    unfolding forensic_file_def by (intro map_cong) simp_all
  from assms show "id_key y = id_key x"
    by (simp add: id_key_def dget_def forensic_fields_def)
qed

lemma fingerprint_non_forensic:
  assumes "list_all2 (\<lambda>x y. \<forall>f\<in>set forensic_fields. map_of y f = map_of x f) xs ys"
  shows "create_forensic_hash_data L ys = create_forensic_hash_data L xs"
  by (rule fingerprint_pointwise)
     (use assms in \<open>auto elim!: list_all2_mono dest: forensic_file_cong\<close>)

lemma forensic_file_id:
  "dget (forensic_file L x) ''id'' d = stringify L (id_key x)"
  by (simp add: forensic_file_def sorted_fields dget_def id_key_def)

lemma trimmed_key:
  assumes "is_str (id_key x)" and "py_strip (the_str (id_key x)) = the_str (id_key x)"
  shows "the_str (dget (forensic_file L x) ''id'' (PStr [])) = the_str (id_key x)"
  using assms by (cases "id_key x") (simp_all add: forensic_file_id)

lemma fingerprint_trimmed:
  assumes "list_all (\<lambda>x. is_str (id_key x) \<and> py_strip (the_str (id_key x)) = the_str (id_key x)) xs"
  shows "create_forensic_hash_data L xs =
     Inr (PDict [(''files'',
       PList (map PDict (sort_key (\<lambda>p. the_str (dget p ''id'' (PStr []))) (map (forensic_file L) xs))))])"
proof -
  from assms have strs: "list_all (\<lambda>x. is_str (id_key x)) xs"
    by (simp add: list_all_iff)
  have "sort_key (\<lambda>x. the_str (dget (forensic_file L x) ''id'' (PStr []))) xs
      = sort_key (\<lambda>x. the_str (id_key x)) xs"
    by (rule sort_key_cong_key) (use assms in \<open>simp add: list_all_iff trimmed_key\<close>)
  then show ?thesis
    by (simp add: fingerprint_strs [OF strs] sort_key_map comp_def)
qed

lemma fingerprint_iff:
  assumes xs: "list_all (\<lambda>x. is_str (id_key x) \<and> py_strip (the_str (id_key x)) = the_str (id_key x)) xs"
    and ys: "list_all (\<lambda>x. is_str (id_key x) \<and> py_strip (the_str (id_key x)) = the_str (id_key x)) ys"
    and inj: "inj_on id_key (set xs)"
  shows "create_forensic_hash_data L ys = create_forensic_hash_data L xs
     \<longleftrightarrow> mset (map (forensic_file L) ys) = mset (map (forensic_file L) xs)"
proof
  let ?k = "\<lambda>p. the_str (dget p ''id'' (PStr []))"
  assume "create_forensic_hash_data L ys = create_forensic_hash_data L xs"
  then have "map PDict (sort_key ?k (map (forensic_file L) ys))
      = map PDict (sort_key ?k (map (forensic_file L) xs))"
    by (simp add: fingerprint_trimmed [OF xs] fingerprint_trimmed [OF ys])
  then have "sort_key ?k (map (forensic_file L) ys) = sort_key ?k (map (forensic_file L) xs)"
    by (simp add: inj_map_eq_map inj_def)
  then have "mset (sort_key ?k (map (forensic_file L) ys)) = mset (sort_key ?k (map (forensic_file L) xs))"
    by simp
  then show "mset (map (forensic_file L) ys) = mset (map (forensic_file L) xs)"
    by (simp only: mset_sort)
next
  let ?k = "\<lambda>p. the_str (dget p ''id'' (PStr []))"
  assume m: "mset (map (forensic_file L) ys) = mset (map (forensic_file L) xs)"
  have "inj_on ?k (set (map (forensic_file L) xs))"
  proof (rule inj_onI)
    fix p q assume "p \<in> set (map (forensic_file L) xs)" "q \<in> set (map (forensic_file L) xs)"
      and eq: "?k p = ?k q"
    then obtain x y where x: "x \<in> set xs" "p = forensic_file L x"
      and y: "y \<in> set xs" "q = forensic_file L y"
      by auto
    from xs x y have sx: "is_str (id_key x)" "py_strip (the_str (id_key x)) = the_str (id_key x)"
      and sy: "is_str (id_key y)" "py_strip (the_str (id_key y)) = the_str (id_key y)"
      by (simp_all add: list_all_iff)
    from eq have "the_str (id_key x) = the_str (id_key y)"
      by (simp add: x y trimmed_key sx sy)
    with sx sy have "id_key x = id_key y"
      by (simp add: the_str_inj)
    with inj x y have "x = y"
      by (simp add: inj_on_def)
    then show "p = q" by (simp add: x y)
  qed
  from sort_key_perm [OF m this]
  show "create_forensic_hash_data L ys = create_forensic_hash_data L xs"
    by (simp add: fingerprint_trimmed [OF xs] fingerprint_trimmed [OF ys])
qed

text \<open>
  C1 (as the code has it). The forensic hash data is the structure that the exporters
  serialise and hash. For records whose ids are strings, such that no two different
  records share an id, it does not depend on the order of the records. It does not depend
  on anything outside the ten forensic fields, so not on the last-viewed time, the
  parents, the share link, the permissions, the star or the version. For records whose
  ids are moreover free of surrounding whitespace, two lists have the same forensic hash
  data if and only if they have the same forensic entries, counted with multiplicity; the
  forensic entry of a record holds the canonical string of each of the ten fields (id,
  name, MIME type, file type, the two raw timestamps, size, checksum, description, trash
  state), so a change that the canonical form erases, such as whitespace at the end of a
  name, does not change the forensic hash data.
\<close>

theorem C1_forensic_hash_data_invariance:
  "(mset ys = mset xs \<and> list_all (\<lambda>x. is_str (id_key x)) xs \<and> inj_on id_key (set xs) \<longrightarrow>
      create_forensic_hash_data L ys = create_forensic_hash_data L xs)
   \<and> (list_all2 (\<lambda>x y. \<forall>f\<in>set forensic_fields. map_of y f = map_of x f) xs ys \<longrightarrow>
      create_forensic_hash_data L ys = create_forensic_hash_data L xs)
   \<and> set [''last_viewed_date'', ''parents'', ''share_link'', ''permissions'',
            ''permission_count'', ''starred'', ''version''] \<inter> set forensic_fields = {}
   \<and> (list_all (\<lambda>x. is_str (id_key x) \<and> py_strip (the_str (id_key x)) = the_str (id_key x)) xs
        \<and> list_all (\<lambda>x. is_str (id_key x) \<and> py_strip (the_str (id_key x)) = the_str (id_key x)) ys
        \<and> inj_on id_key (set xs) \<longrightarrow>
      (create_forensic_hash_data L ys = create_forensic_hash_data L xs
         \<longleftrightarrow> mset (map (forensic_file L) ys) = mset (map (forensic_file L) xs)))
   \<and> forensic_file L x =
       map (\<lambda>f. (f, stringify L (dget x f (PStr []))))
         [''creation_date_raw'', ''description'', ''file_type'', ''id'', ''md5_checksum'',
          ''mime_type'', ''modification_date_raw'', ''name'', ''size_bytes'', ''trashed'']"
proof (intro conjI impI)
  assume "mset ys = mset xs \<and> list_all (\<lambda>x. is_str (id_key x)) xs \<and> inj_on id_key (set xs)"
  then show "create_forensic_hash_data L ys = create_forensic_hash_data L xs"
    by (intro fingerprint_permutation) simp_all
next
  assume "list_all2 (\<lambda>x y. \<forall>f\<in>set forensic_fields. map_of y f = map_of x f) xs ys"
  then show "create_forensic_hash_data L ys = create_forensic_hash_data L xs"
    by (rule fingerprint_non_forensic)
next
  show "set [''last_viewed_date'', ''parents'', ''share_link'', ''permissions'',
            ''permission_count'', ''starred'', ''version''] \<inter> set forensic_fields = {}"
    by (simp add: forensic_fields_def)
next
  assume "list_all (\<lambda>x. is_str (id_key x) \<and> py_strip (the_str (id_key x)) = the_str (id_key x)) xs
        \<and> list_all (\<lambda>x. is_str (id_key x) \<and> py_strip (the_str (id_key x)) = the_str (id_key x)) ys
        \<and> inj_on id_key (set xs)"
  then show "create_forensic_hash_data L ys = create_forensic_hash_data L xs
         \<longleftrightarrow> mset (map (forensic_file L) ys) = mset (map (forensic_file L) xs)"
    by (intro fingerprint_iff) simp_all
next
  show "forensic_file L x =
       map (\<lambda>f. (f, stringify L (dget x f (PStr []))))
         [''creation_date_raw'', ''description'', ''file_type'', ''id'', ''md5_checksum'',
          ''mime_type'', ''modification_date_raw'', ''name'', ''size_bytes'', ''trashed'']"
    by (simp only: forensic_file_def sorted_fields)
qed

theorem C1_forensic_hash_data_invariance_witness:
  "mset [record_2, record_1] = mset [record_1, record_2]
   \<and> list_all (\<lambda>x. is_str (id_key x) \<and> py_strip (the_str (id_key x)) = the_str (id_key x))
         [record_1, record_2]
   \<and> inj_on id_key (set [record_1, record_2])
   \<and> create_forensic_hash_data stub_lib [record_2, record_1]
       = create_forensic_hash_data stub_lib [record_1, record_2]
   \<and> list_all2 (\<lambda>x y. \<forall>f\<in>set forensic_fields. map_of y f = map_of x f)
         [record_1, record_2] [record_1_starred, record_2]
   \<and> create_forensic_hash_data stub_lib [record_1_starred, record_2]
       = create_forensic_hash_data stub_lib [record_1, record_2]
   \<and> mset (map (forensic_file stub_lib) [record_1_renamed, record_2])
       = mset (map (forensic_file stub_lib) [record_1, record_2])
   \<and> create_forensic_hash_data stub_lib [record_1_renamed, record_2]
       = create_forensic_hash_data stub_lib [record_1, record_2]"
proof -
  have perm: "mset [record_2, record_1] = mset [record_1, record_2]"
    by simp
  have trimmed: "list_all (\<lambda>x. is_str (id_key x) \<and> py_strip (the_str (id_key x)) = the_str (id_key x)) xs"
    if "set xs \<subseteq> {record_1, record_2, record_1_renamed}" for xs
    using that
    by (auto simp: list_all_iff id_key_def dget_def record_1_def record_2_def
        record_1_renamed_def py_strip_def py_isspace_def)
  have inj: "inj_on id_key (set [record_1, record_2])"
    by (simp add: id_key_def dget_def record_1_def record_2_def)
  have strs: "list_all (\<lambda>x. is_str (id_key x)) [record_1, record_2]"
    by (simp add: id_key_def dget_def record_1_def record_2_def)
  have star: "list_all2 (\<lambda>x y. \<forall>f\<in>set forensic_fields. map_of y f = map_of x f)
         [record_1, record_2] [record_1_starred, record_2]"
    by (simp add: forensic_fields_def record_1_def record_1_starred_def)
  have entries: "mset (map (forensic_file stub_lib) [record_1_renamed, record_2])
       = mset (map (forensic_file stub_lib) [record_1, record_2])"
    by (simp add: forensic_file_def sorted_fields dget_def record_1_def record_1_renamed_def
        py_strip_def py_isspace_def)
  note inst = C1_forensic_hash_data_invariance [where L = stub_lib and xs = "[record_1, record_2]"]
  from inst [of "[record_2, record_1]"] perm strs inj
  have 1: "create_forensic_hash_data stub_lib [record_2, record_1]
       = create_forensic_hash_data stub_lib [record_1, record_2]"
    by blast
  from inst [of "[record_1_starred, record_2]"] star
  have 2: "create_forensic_hash_data stub_lib [record_1_starred, record_2]
       = create_forensic_hash_data stub_lib [record_1, record_2]"
    by blast
  from inst [of "[record_1_renamed, record_2]"] trimmed [of "[record_1, record_2]"]
    trimmed [of "[record_1_renamed, record_2]"] inj entries
  have 3: "create_forensic_hash_data stub_lib [record_1_renamed, record_2]
       = create_forensic_hash_data stub_lib [record_1, record_2]"
    by auto
  from perm trimmed [of "[record_1, record_2]"] inj 1 star 2 entries 3 show ?thesis
    by simp
qed

text \<open>
  The name of a record differs and the forensic hash data stays the same; and two
  different records under one id give forensic hash data that depends on their order.
\<close>

theorem C1_counterexample:
  "map_of record_1_renamed ''name'' \<noteq> map_of record_1 ''name''
   \<and> create_forensic_hash_data stub_lib [record_1_renamed]
       = create_forensic_hash_data stub_lib [record_1]
   \<and> mset [record_1_other, record_1] = mset [record_1, record_1_other]
   \<and> create_forensic_hash_data stub_lib [record_1_other, record_1]
       \<noteq> create_forensic_hash_data stub_lib [record_1, record_1_other]"
  by (simp add: create_alt sorted_by_id_def id_key_def forensic_file_def sorted_fields dget_def
      record_1_def record_1_renamed_def record_1_other_def py_strip_def py_isspace_def)

subsection \<open>The traversal\<close>

lemmas collect_induct = collect_files_recursively_scan_pages_scan_folders.induct

lemma is_str_key: "is_str v \<Longrightarrow> py_key v = v"
  by (cases v) simp_all

lemma is_str_hashable: "is_str v \<Longrightarrow> hashable v"
  by (cases v) simp_all

lemma collect_mono:
  "collect_files_recursively n ch f V = Inr (A', V') \<Longrightarrow> V \<subseteq> V' \<and> (finite V \<longrightarrow> finite V')"
  "scan_pages n ch pgs A V = Inr (A', V') \<Longrightarrow> V \<subseteq> V' \<and> (finite V \<longrightarrow> finite V')"
  "scan_folders n ch fs A V = Inr (A', V') \<Longrightarrow> V \<subseteq> V' \<and> (finite V \<longrightarrow> finite V')"
proof (induction n ch f V and n ch pgs A V and n ch fs A V arbitrary: A' V' and A' V' and A' V' rule: collect_induct)
  case (1 children folder_id visited_folders)
  then show ?case by simp
next
  case (2 n children folder_id visited_folders)
  then show ?case by (auto split: if_splits)
next
  case (3 n children all_files visited_folders)
  then show ?case by simp
next
  case (4 n children pages all_files visited_folders)
  then show ?case by simp
next
  case (5 n children files pages all_files visited_folders)
  then show ?case
    by (fastforce split: if_splits sum.splits)
next
  case (6 n children all_files visited_folders)
  then show ?case by simp
next
  case (7 n children folder folders all_files visited_folders)
  then show ?case
    by (fastforce simp: Let_def split: if_splits sum.splits)
qed

lemma fetched_simps:
  "fetched [] = []"
  "fetched (ApiError # pages) = []"
  "fetched (Page files # pages) = (if files = [] then [] else Page files # fetched pages)"
  by (simp_all add: fetched_def)

lemma folder_ids_simps:
  "folder_ids [] = {}"
  "folder_ids (folder # folders) =
     (if py_truthy (dget folder ''id'' PNone) then insert (dget folder ''id'' PNone) (folder_ids folders)
      else folder_ids folders)"
  "folder_ids (xs @ ys) = folder_ids xs \<union> folder_ids ys"
  by (simp_all add: folder_ids_def)

lemma listed_subfolders_simps:
  "listed_subfolders [] = {}"
  "listed_subfolders (ApiError # pages) = {}"
  "listed_subfolders (Page files # pages) =
     (if files = [] then {} else folder_ids (filter is_folder files) \<union> listed_subfolders pages)"
  by (simp_all add: listed_subfolders_def fetched_simps folder_ids_simps)

lemma listed_leaves_simps:
  "listed_leaves [] = []"
  "listed_leaves (ApiError # pages) = []"
  "listed_leaves (Page files # pages) =
     (if files = [] then [] else filter (\<lambda>file. \<not> is_folder file) files @ listed_leaves pages)"
  by (simp_all add: listed_leaves_def fetched_simps)

lemma collect_within:
  assumes closed: "\<forall>g\<in>W. listed_subfolders (ch g) \<subseteq> W" and strs: "\<forall>h\<in>W. is_str h"
  shows
  "collect_files_recursively n ch f V = Inr (A', V') \<Longrightarrow> f \<in> W \<Longrightarrow> V \<subseteq> W \<Longrightarrow> V' \<subseteq> W"
  "scan_pages n ch pgs A V = Inr (A', V') \<Longrightarrow> listed_subfolders pgs \<subseteq> W \<Longrightarrow> V \<subseteq> W \<Longrightarrow> V' \<subseteq> W"
  "scan_folders n ch fs A V = Inr (A', V') \<Longrightarrow> folder_ids fs \<subseteq> W \<Longrightarrow> V \<subseteq> W \<Longrightarrow> V' \<subseteq> W"
  using closed strs
proof (induction n ch f V and n ch pgs A V and n ch fs A V arbitrary: A' V' and A' V' and A' V' rule: collect_induct)
  case (1 children folder_id visited_folders)
  then show ?case by simp
next
  case (2 n children folder_id visited_folders)
  from "2.prems"(2,5) have "is_str folder_id" by blast
  then have key: "py_key folder_id = folder_id" and hash: "hashable folder_id"
    by (simp_all add: is_str_key is_str_hashable)
  show ?case
  proof (cases "py_key folder_id \<in> visited_folders")
    case True
    with "2.prems"(1,3) hash show ?thesis by simp
  next
    case False
    with "2.prems"(1) hash
    have run: "scan_pages n children (children folder_id) [] (insert (py_key folder_id) visited_folders)
                  = Inr (A', V')"
      by simp
    from "2.prems"(2,4) have sub: "listed_subfolders (children folder_id) \<subseteq> W" by blast
    from "2.prems"(2,3) key have ins: "insert (py_key folder_id) visited_folders \<subseteq> W" by simp
    from "2.IH" [OF _ False run sub ins "2.prems"(4,5)] hash show ?thesis by simp
  qed
next
  case (3 n children all_files visited_folders)
  then show ?case by simp
next
  case (4 n children pages all_files visited_folders)
  then show ?case by simp
next
  case (5 n children files pages all_files visited_folders)
  show ?case
  proof (cases "files = []")
    case True
    with 5 show ?thesis by simp
  next
    case False
    with "5.prems"(1) obtain A1 V1 where
      1: "scan_folders n children (filter is_folder files)
            (all_files @ filter (\<lambda>file. \<not> is_folder file) files) visited_folders = Inr (A1, V1)"
      and 2: "scan_pages n children pages A1 V1 = Inr (A', V')"
      by (auto split: sum.splits)
    from "5.prems"(2) False have sub: "folder_ids (filter is_folder files) \<subseteq> W" "listed_subfolders pages \<subseteq> W"
      by (simp_all add: listed_subfolders_simps)
    from "5.IH"(1) [OF False 1 sub(1) "5.prems"(3,4,5)] have "V1 \<subseteq> W" .
    from "5.IH"(2) [OF False 1 refl 2 sub(2) this "5.prems"(4,5)] show ?thesis .
  qed
next
  case (6 n children all_files visited_folders)
  then show ?case by simp
next
  case (7 n children folder folders all_files visited_folders)
  let ?id = "dget folder ''id'' PNone"
  show ?case
  proof (cases "py_truthy ?id")
    case False
    with 7 show ?thesis by (simp add: folder_ids_simps)
  next
    case True
    note truthy = this
    from truthy "7.prems"(2) have sub: "?id \<in> W" "folder_ids folders \<subseteq> W"
      by (simp_all add: folder_ids_simps)
    from sub(1) "7.prems"(5) have "is_str ?id" by blast
    then have hash: "hashable ?id"
      by (simp add: is_str_hashable)
    show ?thesis
    proof (cases "py_key ?id \<in> visited_folders")
      case True
      with truthy hash "7.prems"(1) have "scan_folders n children folders all_files visited_folders = Inr (A', V')"
        by simp
      from "7.IH"(2) [OF refl _ _ True this sub(2) "7.prems"(3,4,5)] truthy hash show ?thesis by simp
    next
      case False
      with truthy hash "7.prems"(1) obtain A1 V1 where
        1: "collect_files_recursively n children ?id visited_folders = Inr (A1, V1)"
        and 2: "scan_folders n children folders (all_files @ A1) V1 = Inr (A', V')"
        by (auto simp: Let_def split: sum.splits)
      from "7.IH"(3) [OF refl _ _ False 1 sub(1) "7.prems"(3,4,5)] truthy hash have "V1 \<subseteq> W" by simp
      from "7.IH"(4) [OF refl _ _ False 1 refl 2 sub(2) this "7.prems"(4,5)] truthy hash
      show ?thesis by simp
    qed
  qed
qed

lemma collect_covers:
  assumes strs: "\<forall>g. listed_subfolders (ch g) \<subseteq> Collect is_str"
  shows
  "collect_files_recursively n ch f V = Inr (A', V') \<Longrightarrow> is_str f \<Longrightarrow>
     f \<in> V' \<and> (\<forall>g\<in>V' - V. listed_subfolders (ch g) \<subseteq> V')"
  "scan_pages n ch pgs A V = Inr (A', V') \<Longrightarrow> listed_subfolders pgs \<subseteq> Collect is_str \<Longrightarrow>
     listed_subfolders pgs \<subseteq> V' \<and> (\<forall>g\<in>V' - V. listed_subfolders (ch g) \<subseteq> V')"
  "scan_folders n ch fs A V = Inr (A', V') \<Longrightarrow> folder_ids fs \<subseteq> Collect is_str \<Longrightarrow>
     folder_ids fs \<subseteq> V' \<and> (\<forall>g\<in>V' - V. listed_subfolders (ch g) \<subseteq> V')"
  using strs
proof (induction n ch f V and n ch pgs A V and n ch fs A V arbitrary: A' V' and A' V' and A' V' rule: collect_induct)
  case (1 children folder_id visited_folders)
  then show ?case by simp
next
  case (2 n children folder_id visited_folders)
  from "2.prems"(2) have key: "py_key folder_id = folder_id" and hash: "hashable folder_id"
    by (simp_all add: is_str_key is_str_hashable)
  show ?case
  proof (cases "py_key folder_id \<in> visited_folders")
    case True
    with "2.prems"(1) hash key show ?thesis by auto
  next
    case False
    with "2.prems"(1) hash
    have run: "scan_pages n children (children folder_id) [] (insert (py_key folder_id) visited_folders)
                  = Inr (A', V')"
      by simp
    from "2.prems"(3) have sub: "listed_subfolders (children folder_id) \<subseteq> Collect is_str" by blast
    from "2.IH" [OF _ False run sub "2.prems"(3)] hash key
    have "listed_subfolders (children folder_id) \<subseteq> V'"
      and "\<forall>g\<in>V' - insert folder_id visited_folders. listed_subfolders (children g) \<subseteq> V'"
      by simp_all
    moreover from collect_mono(2) [OF run] key have "folder_id \<in> V'" by simp
    ultimately show ?thesis by auto
  qed
next
  case (3 n children all_files visited_folders)
  then show ?case by (simp add: listed_subfolders_simps)
next
  case (4 n children pages all_files visited_folders)
  then show ?case by simp
next
  case (5 n children files pages all_files visited_folders)
  show ?case
  proof (cases "files = []")
    case True
    with 5 show ?thesis by (simp add: listed_subfolders_simps)
  next
    case False
    with "5.prems"(1) obtain A1 V1 where
      1: "scan_folders n children (filter is_folder files)
            (all_files @ filter (\<lambda>file. \<not> is_folder file) files) visited_folders = Inr (A1, V1)"
      and 2: "scan_pages n children pages A1 V1 = Inr (A', V')"
      by (auto split: sum.splits)
    from "5.prems"(2) False
    have str: "folder_ids (filter is_folder files) \<subseteq> Collect is_str"
      "listed_subfolders pages \<subseteq> Collect is_str"
      by (simp_all add: listed_subfolders_simps)
    from "5.IH"(1) [OF False 1 str(1) "5.prems"(3)]
    have a: "folder_ids (filter is_folder files) \<subseteq> V1"
      "\<forall>g\<in>V1 - visited_folders. listed_subfolders (children g) \<subseteq> V1" by simp_all
    from "5.IH"(2) [OF False 1 refl 2 str(2) "5.prems"(3)]
    have b: "listed_subfolders pages \<subseteq> V'"
      "\<forall>g\<in>V' - V1. listed_subfolders (children g) \<subseteq> V'" by simp_all
    from collect_mono(2) [OF 2] have sub: "V1 \<subseteq> V'" by simp
    with a(2) b(2) have "\<forall>g\<in>V' - visited_folders. listed_subfolders (children g) \<subseteq> V'"
      by blast
    moreover from a(1) b(1) sub False have "listed_subfolders (Page files # pages) \<subseteq> V'"
      by (auto simp: listed_subfolders_simps)
    ultimately show ?thesis by simp
  qed
next
  case (6 n children all_files visited_folders)
  then show ?case by (simp add: folder_ids_simps)
next
  case (7 n children folder folders all_files visited_folders)
  let ?id = "dget folder ''id'' PNone"
  show ?case
  proof (cases "py_truthy ?id")
    case False
    with 7 show ?thesis by (simp add: folder_ids_simps)
  next
    case True
    note truthy = this
    from truthy "7.prems"(2) have str: "is_str ?id" "folder_ids folders \<subseteq> Collect is_str"
      by (simp_all add: folder_ids_simps)
    from str(1) have key: "py_key ?id = ?id" and hash: "hashable ?id"
      by (simp_all add: is_str_key is_str_hashable)
    show ?thesis
    proof (cases "py_key ?id \<in> visited_folders")
      case True
      with truthy hash "7.prems"(1)
      have run: "scan_folders n children folders all_files visited_folders = Inr (A', V')"
        by simp
      from "7.IH"(2) [OF refl _ _ True run str(2) "7.prems"(3)] truthy hash
      have "folder_ids folders \<subseteq> V'"
        "\<forall>g\<in>V' - visited_folders. listed_subfolders (children g) \<subseteq> V'" by simp_all
      moreover from collect_mono(3) [OF run] True key have "?id \<in> V'" by auto
      ultimately show ?thesis using truthy by (simp add: folder_ids_simps)
    next
      case False
      with truthy hash "7.prems"(1) obtain A1 V1 where
        1: "collect_files_recursively n children ?id visited_folders = Inr (A1, V1)"
        and 2: "scan_folders n children folders (all_files @ A1) V1 = Inr (A', V')"
        by (auto simp: Let_def split: sum.splits)
      from "7.IH"(3) [OF refl _ _ False 1 str(1) "7.prems"(3)] truthy hash
      have a: "?id \<in> V1" "\<forall>g\<in>V1 - visited_folders. listed_subfolders (children g) \<subseteq> V1"
        by simp_all
      from "7.IH"(4) [OF refl _ _ False 1 refl 2 str(2) "7.prems"(3)] truthy hash
      have b: "folder_ids folders \<subseteq> V'" "\<forall>g\<in>V' - V1. listed_subfolders (children g) \<subseteq> V'"
        by simp_all
      from collect_mono(3) [OF 2] have sub: "V1 \<subseteq> V'" by simp
      with a(2) b(2) have "\<forall>g\<in>V' - visited_folders. listed_subfolders (children g) \<subseteq> V'"
        by blast
      moreover from a(1) b(1) sub truthy have "folder_ids (folder # folders) \<subseteq> V'"
        by (auto simp: folder_ids_simps)
      ultimately show ?thesis by simp
    qed
  qed
qed

lemma sum_diff_split:
  fixes h :: "'a \<Rightarrow> 'b::comm_monoid_add"
  assumes "finite V'" and "V \<subseteq> V1" and "V1 \<subseteq> V'"
  shows "(\<Sum>g\<in>V' - V. h g) = (\<Sum>g\<in>V1 - V. h g) + (\<Sum>g\<in>V' - V1. h g)"
proof -
  have "V' - V = (V1 - V) \<union> (V' - V1)" using assms(2,3) by auto
  moreover have "(V1 - V) \<inter> (V' - V1) = {}" by auto
  moreover have "finite (V1 - V)" "finite (V' - V1)"
    using assms(1,3) by (auto intro: finite_subset)
  ultimately show ?thesis
    by (simp add: sum.union_disjoint)
qed

lemma collect_mset:
  assumes strs: "\<forall>g. listed_subfolders (ch g) \<subseteq> Collect is_str"
  shows
  "collect_files_recursively n ch f V = Inr (A', V') \<Longrightarrow> finite V \<Longrightarrow> is_str f \<Longrightarrow>
     mset A' = (\<Sum>g\<in>V' - V. mset (listed_leaves (ch g)))"
  "scan_pages n ch pgs A V = Inr (A', V') \<Longrightarrow> finite V \<Longrightarrow>
     listed_subfolders pgs \<subseteq> Collect is_str \<Longrightarrow>
     mset A' = mset A + mset (listed_leaves pgs) + (\<Sum>g\<in>V' - V. mset (listed_leaves (ch g)))"
  "scan_folders n ch fs A V = Inr (A', V') \<Longrightarrow> finite V \<Longrightarrow>
     folder_ids fs \<subseteq> Collect is_str \<Longrightarrow>
     mset A' = mset A + (\<Sum>g\<in>V' - V. mset (listed_leaves (ch g)))"
  using strs
proof (induction n ch f V and n ch pgs A V and n ch fs A V arbitrary: A' V' and A' V' and A' V' rule: collect_induct)
  case (1 children folder_id visited_folders)
  then show ?case by simp
next
  case (2 n children folder_id visited_folders)
  from "2.prems"(3) have key: "py_key folder_id = folder_id" and hash: "hashable folder_id"
    by (simp_all add: is_str_key is_str_hashable)
  show ?case
  proof (cases "py_key folder_id \<in> visited_folders")
    case True
    with "2.prems"(1) hash show ?thesis by auto
  next
    case False
    with "2.prems"(1) hash
    have run: "scan_pages n children (children folder_id) [] (insert (py_key folder_id) visited_folders)
                  = Inr (A', V')"
      by simp
    from "2.prems"(4) have sub: "listed_subfolders (children folder_id) \<subseteq> Collect is_str" by blast
    from "2.prems"(2) have fin: "finite (insert (py_key folder_id) visited_folders)" by simp
    from "2.IH" [OF _ False run fin sub "2.prems"(4)] hash key
    have eq: "mset A' = mset (listed_leaves (children folder_id))
        + (\<Sum>g\<in>V' - insert folder_id visited_folders. mset (listed_leaves (children g)))"
      by simp
    from collect_mono(2) [OF run] "2.prems"(2) key have "folder_id \<in> V'" "finite V'" by auto
    then have "V' - visited_folders = insert folder_id (V' - insert folder_id visited_folders)"
      and "finite (V' - insert folder_id visited_folders)"
      using False key by auto
    then have "(\<Sum>g\<in>V' - visited_folders. mset (listed_leaves (children g)))
        = mset (listed_leaves (children folder_id))
          + (\<Sum>g\<in>V' - insert folder_id visited_folders. mset (listed_leaves (children g)))"
      by (metis (no_types, lifting) Diff_iff insertI1 sum.insert)
    with eq show ?thesis by simp
  qed
next
  case (3 n children all_files visited_folders)
  then show ?case by (simp add: listed_leaves_simps)
next
  case (4 n children pages all_files visited_folders)
  then show ?case by simp
next
  case (5 n children files pages all_files visited_folders)
  show ?case
  proof (cases "files = []")
    case True
    with 5 show ?thesis by (simp add: listed_leaves_simps)
  next
    case False
    with "5.prems"(1) obtain A1 V1 where
      1: "scan_folders n children (filter is_folder files)
            (all_files @ filter (\<lambda>file. \<not> is_folder file) files) visited_folders = Inr (A1, V1)"
      and 2: "scan_pages n children pages A1 V1 = Inr (A', V')"
      by (auto split: sum.splits)
    from "5.prems"(3) False
    have str: "folder_ids (filter is_folder files) \<subseteq> Collect is_str"
      "listed_subfolders pages \<subseteq> Collect is_str"
      by (simp_all add: listed_subfolders_simps)
    from collect_mono(3) [OF 1] "5.prems"(2) have m1: "visited_folders \<subseteq> V1" "finite V1" by auto
    from collect_mono(2) [OF 2] m1 have m2: "V1 \<subseteq> V'" "finite V'" by auto
    from "5.IH"(1) [OF False 1 "5.prems"(2) str(1) "5.prems"(4)]
    have a: "mset A1 = mset (all_files @ filter (\<lambda>file. \<not> is_folder file) files)
        + (\<Sum>g\<in>V1 - visited_folders. mset (listed_leaves (children g)))" .
    from "5.IH"(2) [OF False 1 refl 2 m1(2) str(2) "5.prems"(4)]
    have b: "mset A' = mset A1 + mset (listed_leaves pages)
        + (\<Sum>g\<in>V' - V1. mset (listed_leaves (children g)))" .
    show ?thesis
      unfolding b a sum_diff_split [OF m2(2) m1(1) m2(1)]
      using False by (simp add: listed_leaves_simps)
  qed
next
  case (6 n children all_files visited_folders)
  then show ?case by simp
next
  case (7 n children folder folders all_files visited_folders)
  let ?id = "dget folder ''id'' PNone"
  show ?case
  proof (cases "py_truthy ?id")
    case False
    with 7 show ?thesis by (simp add: folder_ids_simps)
  next
    case True
    note truthy = this
    from truthy "7.prems"(3) have str: "is_str ?id" "folder_ids folders \<subseteq> Collect is_str"
      by (simp_all add: folder_ids_simps)
    from str(1) have hash: "hashable ?id"
      by (simp add: is_str_hashable)
    show ?thesis
    proof (cases "py_key ?id \<in> visited_folders")
      case True
      with truthy hash "7.prems"(1)
      have run: "scan_folders n children folders all_files visited_folders = Inr (A', V')"
        by simp
      from "7.IH"(2) [OF refl _ _ True run "7.prems"(2) str(2) "7.prems"(4)] truthy hash
      show ?thesis by simp
    next
      case False
      with truthy hash "7.prems"(1) obtain A1 V1 where
        1: "collect_files_recursively n children ?id visited_folders = Inr (A1, V1)"
        and 2: "scan_folders n children folders (all_files @ A1) V1 = Inr (A', V')"
        by (auto simp: Let_def split: sum.splits)
      from collect_mono(1) [OF 1] "7.prems"(2) have m1: "visited_folders \<subseteq> V1" "finite V1" by auto
      from collect_mono(3) [OF 2] m1 have m2: "V1 \<subseteq> V'" "finite V'" by auto
      from "7.IH"(3) [OF refl _ _ False 1 "7.prems"(2) str(1) "7.prems"(4)] truthy hash
      have a: "mset A1 = (\<Sum>g\<in>V1 - visited_folders. mset (listed_leaves (children g)))"
        by simp
      from "7.IH"(4) [OF refl _ _ False 1 refl 2 m1(2) str(2) "7.prems"(4)] truthy hash
      have b: "mset A' = mset (all_files @ A1) + (\<Sum>g\<in>V' - V1. mset (listed_leaves (children g)))"
        by simp
      show ?thesis
        unfolding b sum_diff_split [OF m2(2) m1(1) m2(1)]
        by (simp add: a)
    qed
  qed
qed

lemma card_diff_mono:
  assumes "finite U" and "V \<subseteq> V1"
  shows "card (U - V1) \<le> card (U - V)"
  by (rule card_mono) (use assms in auto)

lemma card_diff_insert:
  assumes "finite U" and "f \<in> U" and "f \<notin> V"
  shows "Suc (card (U - insert f V)) = card (U - V)"
proof -
  have "U - insert f V = (U - V) - {f}" by auto
  moreover from assms have "f \<in> U - V" "finite (U - V)" by auto
  ultimately show ?thesis
    by (simp only: card_Suc_Diff1)
qed

lemma collect_depth:
  assumes fin: "finite U" and cl: "\<forall>g. py_key ` listed_subfolders (ch g) \<subseteq> U"
  shows
  "py_key f \<in> U \<Longrightarrow> py_key f \<notin> V \<Longrightarrow> card (U - V) \<le> n \<Longrightarrow>
     collect_files_recursively n ch f V \<noteq> Inl RecursionError"
  "py_key ` listed_subfolders pgs \<subseteq> U \<Longrightarrow> card (U - V) \<le> n \<Longrightarrow>
     scan_pages n ch pgs A V \<noteq> Inl RecursionError"
  "py_key ` folder_ids fs \<subseteq> U \<Longrightarrow> card (U - V) \<le> n \<Longrightarrow>
     scan_folders n ch fs A V \<noteq> Inl RecursionError"
  using cl
proof (induction n ch f V and n ch pgs A V and n ch fs A V rule: collect_induct)
  case (1 children folder_id visited_folders)
  from "1.prems"(1,2) fin have "0 < card (U - visited_folders)"
    by (auto simp: card_gt_0_iff)
  with "1.prems"(3) show ?case by simp
next
  case (2 n children folder_id visited_folders)
  show ?case
  proof (cases "hashable folder_id")
    case False
    then show ?thesis by simp
  next
    case True
    from card_diff_insert [OF fin "2.prems"(1,2)] "2.prems"(3)
    have c: "card (U - insert (py_key folder_id) visited_folders) \<le> n"
      by simp
    from "2.prems"(4) have "py_key ` listed_subfolders (children folder_id) \<subseteq> U" by simp
    from "2.IH" [OF _ "2.prems"(2) this c "2.prems"(4)] True "2.prems"(2) show ?thesis
      by simp
  qed
next
  case (3 n children all_files visited_folders)
  then show ?case by simp
next
  case (4 n children pages all_files visited_folders)
  then show ?case by simp
next
  case (5 n children files pages all_files visited_folders)
  show ?case
  proof (cases "files = []")
    case True
    then show ?thesis by simp
  next
    case False
    from "5.prems"(1) False
    have sub: "py_key ` folder_ids (filter is_folder files) \<subseteq> U" "py_key ` listed_subfolders pages \<subseteq> U"
      by (simp_all add: listed_subfolders_simps image_Un)
    let ?r = "scan_folders n children (filter is_folder files)
            (all_files @ filter (\<lambda>file. \<not> is_folder file) files) visited_folders"
    from "5.IH"(1) [OF False sub(1) "5.prems"(2,3)] have r: "?r \<noteq> Inl RecursionError" .
    show ?thesis
    proof (cases ?r)
      case (Inl e)
      with r False show ?thesis by simp
    next
      case (Inr p)
      then have 2: "?r = Inr (fst p, snd p)" by simp
      from collect_mono(3) [OF 2] have "visited_folders \<subseteq> snd p" by simp
      from card_diff_mono [OF fin this] "5.prems"(2) have "card (U - snd p) \<le> n" by simp
      from "5.IH"(2) [OF False 2 refl sub(2) this "5.prems"(3)] 2 False show ?thesis
        by (simp add: case_prod_beta)
    qed
  qed
next
  case (6 n children all_files visited_folders)
  then show ?case by simp
next
  case (7 n children folder folders all_files visited_folders)
  let ?id = "dget folder ''id'' PNone"
  show ?case
  proof (cases "py_truthy ?id")
    case False
    from "7.prems"(1) False have "py_key ` folder_ids folders \<subseteq> U"
      by (simp add: folder_ids_simps)
    from "7.IH"(1) [OF refl _ this "7.prems"(2,3)] False show ?thesis by simp
  next
    case True
    note truthy = this
    from "7.prems"(1) truthy have sub: "py_key ?id \<in> U" "py_key ` folder_ids folders \<subseteq> U"
      by (simp_all add: folder_ids_simps)
    show ?thesis
    proof (cases "hashable ?id")
      case False
      with truthy show ?thesis by simp
    next
      case True
      note hash = this
      show ?thesis
      proof (cases "py_key ?id \<in> visited_folders")
        case True
        from "7.IH"(2) [OF refl _ _ True sub(2) "7.prems"(2,3)] truthy hash True show ?thesis
          by simp
      next
        case False
        let ?r = "collect_files_recursively n children ?id visited_folders"
        from "7.IH"(3) [OF refl _ _ False sub(1) False "7.prems"(2,3)] truthy hash
        have r: "?r \<noteq> Inl RecursionError" by simp
        show ?thesis
        proof (cases ?r)
          case (Inl e)
          with r truthy hash False show ?thesis by simp
        next
          case (Inr p)
          then have 2: "?r = Inr (fst p, snd p)" by simp
          from collect_mono(1) [OF 2] have "visited_folders \<subseteq> snd p" by simp
          from card_diff_mono [OF fin this] "7.prems"(2) have c: "card (U - snd p) \<le> n" by simp
          from "7.IH"(4) [OF refl _ _ False 2 refl sub(2) c "7.prems"(3)] truthy hash
          have "scan_folders n children folders (all_files @ fst p) (snd p) \<noteq> Inl RecursionError" by simp
          with 2 truthy hash False show ?thesis by (simp add: case_prod_beta)
        qed
      qed
    qed
  qed
qed

lemma collect_error_free:
  assumes ok: "\<forall>g. ApiError \<notin> set (ch g)"
    and strs: "\<forall>g. listed_subfolders (ch g) \<subseteq> Collect is_str"
  shows
  "collect_files_recursively n ch f V = Inl e \<Longrightarrow> is_str f \<Longrightarrow> e = RecursionError"
  "scan_pages n ch pgs A V = Inl e \<Longrightarrow> ApiError \<notin> set pgs \<Longrightarrow>
     listed_subfolders pgs \<subseteq> Collect is_str \<Longrightarrow> e = RecursionError"
  "scan_folders n ch fs A V = Inl e \<Longrightarrow> folder_ids fs \<subseteq> Collect is_str \<Longrightarrow> e = RecursionError"
  using ok strs
proof (induction n ch f V and n ch pgs A V and n ch fs A V arbitrary: e and e and e rule: collect_induct)
  case (1 children folder_id visited_folders)
  then show ?case by simp
next
  case (2 n children folder_id visited_folders)
  from "2.prems"(2) have hash: "hashable folder_id"
    by (simp add: is_str_hashable)
  show ?case
  proof (cases "py_key folder_id \<in> visited_folders")
    case True
    with "2.prems"(1) hash show ?thesis by simp
  next
    case False
    with "2.prems"(1) hash
    have run: "scan_pages n children (children folder_id) [] (insert (py_key folder_id) visited_folders)
                  = Inl e"
      by simp
    from "2.prems"(3) have ok: "ApiError \<notin> set (children folder_id)" by blast
    from "2.prems"(4) have sub: "listed_subfolders (children folder_id) \<subseteq> Collect is_str" by blast
    from "2.IH" [OF _ False run ok sub "2.prems"(3,4)] hash show ?thesis by simp
  qed
next
  case (3 n children all_files visited_folders)
  then show ?case by simp
next
  case (4 n children pages all_files visited_folders)
  then show ?case by simp
next
  case (5 n children files pages all_files visited_folders)
  show ?case
  proof (cases "files = []")
    case True
    with "5.prems"(1) show ?thesis by simp
  next
    case False
    from "5.prems"(2) have ok: "ApiError \<notin> set pages" by simp
    from "5.prems"(3) False
    have str: "folder_ids (filter is_folder files) \<subseteq> Collect is_str"
      "listed_subfolders pages \<subseteq> Collect is_str"
      by (simp_all add: listed_subfolders_simps)
    let ?r = "scan_folders n children (filter is_folder files)
            (all_files @ filter (\<lambda>file. \<not> is_folder file) files) visited_folders"
    show ?thesis
    proof (cases ?r)
      case (Inl e')
      with "5.prems"(1) False have "e' = e" by simp
      with Inl "5.IH"(1) [OF False _ str(1) "5.prems"(4,5), of e] show ?thesis by simp
    next
      case (Inr p)
      then have 1: "?r = Inr (fst p, snd p)" by simp
      with "5.prems"(1) False have 2: "scan_pages n children pages (fst p) (snd p) = Inl e"
        by (simp add: case_prod_beta)
      from "5.IH"(2) [OF False 1 refl 2 ok str(2) "5.prems"(4,5)] show ?thesis .
    qed
  qed
next
  case (6 n children all_files visited_folders)
  then show ?case by simp
next
  case (7 n children folder folders all_files visited_folders)
  let ?id = "dget folder ''id'' PNone"
  show ?case
  proof (cases "py_truthy ?id")
    case False
    with "7.prems"(1) have run: "scan_folders n children folders all_files visited_folders = Inl e"
      by simp
    from "7.prems"(2) False have "folder_ids folders \<subseteq> Collect is_str"
      by (simp add: folder_ids_simps)
    from "7.IH"(1) [OF refl _ run this "7.prems"(3,4)] False show ?thesis by simp
  next
    case True
    note truthy = this
    from truthy "7.prems"(2) have str: "is_str ?id" "folder_ids folders \<subseteq> Collect is_str"
      by (simp_all add: folder_ids_simps)
    from str(1) have hash: "hashable ?id"
      by (simp add: is_str_hashable)
    show ?thesis
    proof (cases "py_key ?id \<in> visited_folders")
      case True
      with truthy hash "7.prems"(1)
      have run: "scan_folders n children folders all_files visited_folders = Inl e"
        by simp
      from "7.IH"(2) [OF refl _ _ True run str(2) "7.prems"(3,4)] truthy hash show ?thesis by simp
    next
      case False
      let ?r = "collect_files_recursively n children ?id visited_folders"
      show ?thesis
      proof (cases ?r)
        case (Inl e')
        with "7.prems"(1) truthy hash False have "e' = e" by simp
        with Inl "7.IH"(3) [OF refl _ _ False _ str(1) "7.prems"(3,4), of e] truthy hash
        show ?thesis by simp
      next
        case (Inr p)
        then have 1: "?r = Inr (fst p, snd p)" by simp
        with "7.prems"(1) truthy hash False
        have 2: "scan_folders n children folders (all_files @ fst p) (snd p) = Inl e"
          by (simp add: case_prod_beta)
        from "7.IH"(4) [OF refl _ _ False 1 refl 2 str(2) "7.prems"(3,4)] truthy hash
        show ?thesis by simp
      qed
    qed
  qed
qed

lemma folder_ids_mono: "set xs \<subseteq> set ys \<Longrightarrow> folder_ids xs \<subseteq> folder_ids ys"
  by (auto simp: folder_ids_def)

lemma card_folder_ids: "card (folder_ids xs) \<le> length xs"
proof -
  have "card (folder_ids xs) \<le> length (filter py_truthy (map (\<lambda>folder. dget folder ''id'' PNone) xs))"
    unfolding folder_ids_def by (rule card_length)
  also have "\<dots> \<le> length xs"
    by (metis length_filter_le length_map)
  finally show ?thesis .
qed

lemma set_fetched: "set (fetched pages) \<subseteq> set pages"
  unfolding fetched_def by (auto dest: set_takeWhileD)

lemma set_concat_map_mono:
  "set xs \<subseteq> set ys \<Longrightarrow> set (concat (map f xs)) \<subseteq> set (concat (map f ys))"
  by (simp add: UN_mono)

lemma set_filter_mono: "set xs \<subseteq> set ys \<Longrightarrow> set (filter P xs) \<subseteq> set (filter P ys)"
  by auto

lemma list_pages_in_drive: "list_pages D q = [] \<or> list_pages D q \<in> snd ` set D"
  by (auto simp: list_pages_def split: option.splits dest!: map_of_SomeD intro: rev_image_eqI)

lemma children_in_drive: "set (children_of L D include_trashed g) \<subseteq> set (concat (map snd D))"
  using list_pages_in_drive [of D "InParents (py_str L g) (\<not> include_trashed)"]
  by (force simp: children_of_def)

lemma listed_in_entries:
  "listed_subfolders (children_of L D include_trashed g) \<subseteq> folder_ids (folder_entries D)"
proof -
  let ?pages = "children_of L D include_trashed g"
  from set_fetched [of ?pages] children_in_drive [of L D include_trashed g]
  have "set (fetched ?pages) \<subseteq> set (concat (map snd D))"
    by (rule subset_trans)
  then have "set (concat (map page_files (fetched ?pages))) \<subseteq> set (concat (map page_files (concat (map snd D))))"
    by (rule set_concat_map_mono)
  then have "set (filter is_folder (concat (map page_files (fetched ?pages)))) \<subseteq> set (folder_entries D)"
    unfolding folder_entries_def by (rule set_filter_mono)
  then show ?thesis
    unfolding listed_subfolders_def by (rule folder_ids_mono)
qed

lemma collect_from_root_depth:
  assumes "length (folder_entries D) < recursion_limit L"
  shows "collect_from_root L D include_trashed root \<noteq> Inl RecursionError"
proof -
  let ?U = "py_key ` insert root (folder_ids (folder_entries D))"
  have fin: "finite ?U" by (simp add: folder_ids_def)
  have cl: "\<forall>g. py_key ` listed_subfolders (children_of L D include_trashed g) \<subseteq> ?U"
    using listed_in_entries [of L D include_trashed] by blast
  have "card ?U \<le> card (insert root (folder_ids (folder_entries D)))"
    by (rule card_image_le) (simp add: folder_ids_def)
  also have "\<dots> \<le> Suc (length (folder_entries D))"
    using card_folder_ids [of "folder_entries D"]
    by (simp add: card_insert_if folder_ids_def)
  finally have "card (?U - {}) \<le> recursion_limit L"
    using assms by simp
  from collect_depth(1) [OF fin cl _ _ this, of root] show ?thesis
    by (simp add: collect_from_root_def)
qed

lemma collect_from_root_returns:
  assumes limit: "length (folder_entries D) < recursion_limit L"
    and ok: "ApiError \<notin> set (concat (map snd D))"
    and root: "is_str root" and strs: "\<forall>h\<in>folder_ids (folder_entries D). is_str h"
  shows "\<exists>A V'. collect_from_root L D include_trashed root = Inr (A, V')"
proof (cases "collect_from_root L D include_trashed root")
  case (Inl e)
  have "\<forall>g. ApiError \<notin> set (children_of L D include_trashed g)"
    using children_in_drive [of L D include_trashed] ok by blast
  moreover have "\<forall>g. listed_subfolders (children_of L D include_trashed g) \<subseteq> Collect is_str"
    using listed_in_entries [of L D include_trashed] strs by blast
  moreover from Inl
  have "collect_files_recursively (recursion_limit L) (children_of L D include_trashed) root {} = Inl e"
    by (simp add: collect_from_root_def)
  ultimately have "e = RecursionError"
    using root by (rule collect_error_free(1))
  with Inl collect_from_root_depth [OF limit, of include_trashed root] show ?thesis
    by simp
next
  case (Inr p)
  then show ?thesis
    by (cases p) simp
qed

lemma reachable_closed:
  "\<forall>g\<in>reachable_folders ch root. listed_subfolders (ch g) \<subseteq> reachable_folders ch root"
  by (auto simp: reachable_folders_def subfolder_link_def intro: rtrancl_into_rtrancl)

lemma reachable_strs:
  assumes "is_str root" and "\<forall>g. listed_subfolders (ch g) \<subseteq> Collect is_str"
  shows "\<forall>h\<in>reachable_folders ch root. is_str h"
proof
  fix h
  assume "h \<in> reachable_folders ch root"
  then have "(root, h) \<in> (subfolder_link ch)\<^sup>*"
    by (simp add: reachable_folders_def)
  then show "is_str h"
  proof (cases rule: rtranclE)
    case base
    with assms(1) show ?thesis by simp
  next
    case (step y)
    with assms(2) show ?thesis
      by (auto simp: subfolder_link_def)
  qed
qed

lemma collect_visits_reachable:
  assumes run: "collect_files_recursively n ch root {} = Inr (A, V')"
    and root: "is_str root" and strs: "\<forall>g. listed_subfolders (ch g) \<subseteq> Collect is_str"
  shows "V' = reachable_folders ch root"
proof
  have "root \<in> reachable_folders ch root"
    by (simp add: reachable_folders_def)
  from collect_within(1) [OF reachable_closed reachable_strs [OF root strs] run this]
  show "V' \<subseteq> reachable_folders ch root"
    by simp
next
  from collect_covers(1) [OF strs run root]
  have root: "root \<in> V'" and closed: "\<forall>g\<in>V'. listed_subfolders (ch g) \<subseteq> V'"
    by simp_all
  have "g \<in> V'" if "(root, g) \<in> (subfolder_link ch)\<^sup>*" for g
    using that
  proof (induction rule: rtrancl_induct)
    case base
    show ?case by (rule root)
  next
    case (step y z)
    with closed show ?case
      by (auto simp: subfolder_link_def)
  qed
  then show "reachable_folders ch root \<subseteq> V'"
    by (auto simp: reachable_folders_def)
qed

lemma once_in_sum:
  assumes fin: "finite S" and g0: "g0 \<in> S" and one: "count (M g0) x = 1"
    and others: "\<forall>g\<in>S. g \<noteq> g0 \<longrightarrow> count (M g) x = 0"
  shows "count (\<Sum>g\<in>S. M g) x = 1"
proof -
  have "count (\<Sum>g\<in>S. M g) x = (\<Sum>g\<in>S. count (M g) x)"
    by (rule count_sum)
  also have "\<dots> = count (M g0) x + (\<Sum>g\<in>S - {g0}. count (M g) x)"
    using fin g0 by (rule sum.remove)
  also have "(\<Sum>g\<in>S - {g0}. count (M g) x) = 0"
    using others by simp
  finally show ?thesis using one by simp
qed

text \<open>
  The visited set compares ids as Python does: in \<open>alias_drive\<close> the folder with
  the id \<open>True\<close> is skipped, because the folder with the id 1 has been visited.
\<close>

lemma visited_set_python_equality:
  "collect_from_root stub_lib alias_drive False (PStr ''root'')
     = Inr ([item_a], {PStr ''root'', PInt 1})"
  by (simp add: collect_from_root_def stub_lib_def numeral_eq_Suc alias_drive_def
      children_of_def list_pages_def is_folder_def item_a_def item_b_def dget_def
      str_int_def str_nat.simps insert_commute)

text \<open>
  C5 (as the code has it). The depth of the recursion is bounded by the visited set and
  not by the shape of the drive: whenever the recursion limit leaves room for one nested
  call more than the drive has folder entries, the collection does not run into the limit,
  with or without cycles among the folders. A folder whose id is already in the visited
  set is skipped without error, at the call and in the loop over the folders of a page.
  On a drive whose folder ids are strings, as the ids of the Drive API are, and from a
  root that is one: when no listing fails and the limit leaves that room, the collection
  returns a list; and whenever it returns a list, the folders visited are exactly those
  reachable from the root, each listed once, and the list holds the leaf entries of the
  listings of these folders, entry by entry: a leaf that is listed once, by one reachable
  folder, is yielded exactly once, and a leaf listed by several reachable folders is
  yielded once for each of them.
\<close>

theorem C5_traversal_terminates_and_collects:
  "(length (folder_entries D) < recursion_limit L \<longrightarrow>
      collect_from_root L D include_trashed root \<noteq> Inl RecursionError)
   \<and> (hashable root \<and> py_key root \<in> V \<longrightarrow>
        collect_files_recursively (Suc n) ch root V = Inr ([], V))
   \<and> (py_truthy (dget folder ''id'' PNone) \<and> hashable (dget folder ''id'' PNone)
        \<and> py_key (dget folder ''id'' PNone) \<in> V \<longrightarrow>
        scan_folders n ch (folder # folders) all_files V = scan_folders n ch folders all_files V)
   \<and> (is_str root \<and> (\<forall>h\<in>folder_ids (folder_entries D). is_str h) \<longrightarrow>
        (ApiError \<notin> set (concat (map snd D)) \<and> length (folder_entries D) < recursion_limit L \<longrightarrow>
           (\<exists>A0 V0. collect_from_root L D include_trashed root = Inr (A0, V0)))
        \<and> (collect_from_root L D include_trashed root = Inr (A, V') \<longrightarrow>
             V' = reachable_folders (children_of L D include_trashed) root
             \<and> mset A = (\<Sum>g\<in>V'. mset (listed_leaves (children_of L D include_trashed g)))
             \<and> (\<forall>x g0. g0 \<in> V'
                   \<and> count_list (listed_leaves (children_of L D include_trashed g0)) x = 1
                   \<and> (\<forall>g\<in>V'. g \<noteq> g0 \<longrightarrow>
                         x \<notin> set (listed_leaves (children_of L D include_trashed g)))
                   \<longrightarrow> count_list A x = 1)))"
proof (intro conjI impI)
  assume "length (folder_entries D) < recursion_limit L"
  then show "collect_from_root L D include_trashed root \<noteq> Inl RecursionError"
    by (rule collect_from_root_depth)
next
  assume "hashable root \<and> py_key root \<in> V"
  then show "collect_files_recursively (Suc n) ch root V = Inr ([], V)"
    by simp
next
  assume "py_truthy (dget folder ''id'' PNone) \<and> hashable (dget folder ''id'' PNone)
        \<and> py_key (dget folder ''id'' PNone) \<in> V"
  then show "scan_folders n ch (folder # folders) all_files V = scan_folders n ch folders all_files V"
    by simp
next
  assume "is_str root \<and> (\<forall>h\<in>folder_ids (folder_entries D). is_str h)"
    and "ApiError \<notin> set (concat (map snd D)) \<and> length (folder_entries D) < recursion_limit L"
  then show "\<exists>A0 V0. collect_from_root L D include_trashed root = Inr (A0, V0)"
    using collect_from_root_returns [of D L root include_trashed] by blast
next
  assume str: "is_str root \<and> (\<forall>h\<in>folder_ids (folder_entries D). is_str h)"
    and run: "collect_from_root L D include_trashed root = Inr (A, V')"
  let ?ch = "children_of L D include_trashed"
  from str have root: "is_str root" by simp
  from str have strs: "\<forall>g. listed_subfolders (?ch g) \<subseteq> Collect is_str"
    using listed_in_entries [of L D include_trashed] by blast
  from run have run': "collect_files_recursively (recursion_limit L) ?ch root {} = Inr (A, V')"
    by (simp add: collect_from_root_def)
  show "V' = reachable_folders ?ch root"
    using run' root strs by (rule collect_visits_reachable)
  from collect_mset(1) [OF strs run' _ root]
  show sum: "mset A = (\<Sum>g\<in>V'. mset (listed_leaves (?ch g)))"
    by simp
  from collect_mono(1) [OF run'] have fin: "finite V'" by simp
  show "\<forall>x g0. g0 \<in> V' \<and> count_list (listed_leaves (?ch g0)) x = 1
              \<and> (\<forall>g\<in>V'. g \<noteq> g0 \<longrightarrow> x \<notin> set (listed_leaves (?ch g)))
              \<longrightarrow> count_list A x = 1"
  proof (intro allI impI)
    fix x g0
    assume h: "g0 \<in> V' \<and> count_list (listed_leaves (?ch g0)) x = 1
              \<and> (\<forall>g\<in>V'. g \<noteq> g0 \<longrightarrow> x \<notin> set (listed_leaves (?ch g)))"
    have "count (\<Sum>g\<in>V'. mset (listed_leaves (?ch g))) x = 1"
    proof (rule once_in_sum [OF fin])
      from h show "g0 \<in> V'" by simp
      from h show "count (mset (listed_leaves (?ch g0))) x = 1"
        by (simp add: count_mset)
      from h show "\<forall>g\<in>V'. g \<noteq> g0 \<longrightarrow> count (mset (listed_leaves (?ch g))) x = 0"
        by (simp add: count_mset count_list_0_iff)
    qed
    then show "count_list A x = 1"
      by (simp flip: sum add: count_mset)
  qed
qed

lemma cycle_run:
  "collect_from_root stub_lib cycle_drive False (PStr ''A'')
     = Inr ([leaf_x], {PStr ''A'', PStr ''B''})"
  by (simp add: collect_from_root_def stub_lib_def numeral_eq_Suc cycle_drive_def
      children_of_def list_pages_def folder_entries_def is_folder_def folder_item_def
      leaf_x_def dget_def insert_commute)

lemma cycle_entries:
  "folder_ids (folder_entries cycle_drive) = {PStr ''A'', PStr ''B''}"
  "length (folder_entries cycle_drive) = 2"
  "ApiError \<notin> set (concat (map snd cycle_drive))"
  by (auto simp: cycle_drive_def folder_entries_def folder_ids_def is_folder_def
      folder_item_def leaf_x_def dget_def)

theorem C5_traversal_terminates_and_collects_witness:
  "length (folder_entries cycle_drive) < recursion_limit stub_lib
   \<and> is_str (PStr ''A'') \<and> is_str (PStr ''B'')
   \<and> folder_ids (folder_entries cycle_drive) = {PStr ''A'', PStr ''B''}
   \<and> ApiError \<notin> set (concat (map snd cycle_drive))
   \<and> collect_from_root stub_lib cycle_drive False (PStr ''A'')
       = Inr ([leaf_x], {PStr ''A'', PStr ''B''})
   \<and> collect_from_root stub_lib cycle_drive False (PStr ''A'') \<noteq> Inl RecursionError
   \<and> reachable_folders (children_of stub_lib cycle_drive False) (PStr ''A'')
       = {PStr ''A'', PStr ''B''}
   \<and> hashable (PStr ''A'') \<and> py_key (PStr ''A'') \<in> {PStr ''A''}
   \<and> collect_files_recursively (Suc 0) (children_of stub_lib cycle_drive False) (PStr ''A'')
         {PStr ''A''}
       = Inr ([], {PStr ''A''})
   \<and> py_truthy (dget (folder_item ''A'') ''id'' PNone)
   \<and> hashable (dget (folder_item ''A'') ''id'' PNone)
   \<and> py_key (dget (folder_item ''A'') ''id'' PNone) \<in> {PStr ''A'', PStr ''B''}
   \<and> scan_folders 0 (children_of stub_lib cycle_drive False) [folder_item ''A''] [leaf_x]
         {PStr ''A'', PStr ''B''}
       = Inr ([leaf_x], {PStr ''A'', PStr ''B''})
   \<and> count_list [leaf_x] leaf_x = 1"
proof -
  have limit: "length (folder_entries cycle_drive) < recursion_limit stub_lib"
    by (simp add: cycle_entries stub_lib_def)
  have strs: "\<forall>h\<in>folder_ids (folder_entries cycle_drive). is_str h"
    by (simp add: cycle_entries)
  have id: "dget (folder_item ''A'') ''id'' PNone = PStr ''A''"
    by (simp add: folder_item_def dget_def)
  from C5_traversal_terminates_and_collects
    [where D = cycle_drive and L = stub_lib and include_trashed = False and root = "PStr ''A''"
       and A = "[leaf_x]" and V' = "{PStr ''A'', PStr ''B''}"]
    limit strs cycle_run
  have "reachable_folders (children_of stub_lib cycle_drive False) (PStr ''A'')
       = {PStr ''A'', PStr ''B''}"
    and "collect_from_root stub_lib cycle_drive False (PStr ''A'') \<noteq> Inl RecursionError"
    by simp_all
  moreover from C5_traversal_terminates_and_collects
    [where root = "PStr ''A''" and V = "{PStr ''A''}" and n = 0
       and ch = "children_of stub_lib cycle_drive False"]
  have "collect_files_recursively (Suc 0) (children_of stub_lib cycle_drive False) (PStr ''A'')
         {PStr ''A''}
       = Inr ([], {PStr ''A''})"
    by simp
  moreover from C5_traversal_terminates_and_collects
    [where V = "{PStr ''A'', PStr ''B''}" and n = 0
       and ch = "children_of stub_lib cycle_drive False"
       and folder = "folder_item ''A''" and folders = "[]" and all_files = "[leaf_x]"]
  have "scan_folders 0 (children_of stub_lib cycle_drive False) [folder_item ''A''] [leaf_x]
         {PStr ''A'', PStr ''B''}
       = Inr ([leaf_x], {PStr ''A'', PStr ''B''})"
    by (simp add: id)
  ultimately show ?thesis
    using cycle_run limit cycle_entries(3) by (simp add: id cycle_entries(1))
qed

text \<open>
  The leaf of \<open>diamond_drive\<close> is reachable and is yielded twice.
\<close>

theorem C5_counterexample:
  "collect_from_root stub_lib diamond_drive False (PStr ''root'')
     = Inr ([leaf_x, leaf_x], {PStr ''root'', PStr ''A'', PStr ''B''})
   \<and> count_list [leaf_x, leaf_x] leaf_x = 2"
  by (simp add: collect_from_root_def stub_lib_def numeral_eq_Suc diamond_drive_def
      children_of_def list_pages_def folder_entries_def is_folder_def folder_item_def
      leaf_x_def dget_def insert_commute)

subsection \<open>The job controller\<close>

lemma step_at_check4:
  assumes "i < length (threads s)" and "at (threads s ! i) = Stop_check 4"
    and "extraction (job_of (threads s ! i)) = Inr []" and "\<not> stop_event s"
  shows "fire s (Step i) = s\<lparr>threads := (threads s)[i := (threads s ! i)\<lparr>at := Raised ''No files found to extract''\<rparr>]\<rparr>"
  using assms by (simp add: after_check_def)

lemma step_at_raised:
  assumes "i < length (threads s)" and "at (threads s ! i) = Raised msg" and "\<not> stop_event s"
  shows "fire s (Step i) = s\<lparr>threads := (threads s)[i := (threads s ! i)\<lparr>at := Error_write msg\<rparr>]\<rparr>"
  using assms by simp

lemma step_at_error_write:
  assumes "i < length (threads s)" and "at (threads s ! i) = Error_write msg"
  shows "fire s (Step i) =
     s\<lparr>state := (state s)\<lparr>status := Error, error := Some msg, message := ''Error: '' @ msg\<rparr>,
       threads := (threads s)[i := (threads s ! i)\<lparr>at := Done\<rparr>]\<rparr>"
  using assms by simp

lemma empty_result_steps:
  assumes "i < length (threads s)" and "at (threads s ! i) = Stop_check 4"
    and "extraction (job_of (threads s ! i)) = Inr []" and "\<not> stop_event s"
  shows "foldl fire s [Step i, Step i, Step i] =
     s\<lparr>state := (state s)\<lparr>status := Error, error := Some ''No files found to extract'',
                          message := ''Error: No files found to extract''\<rparr>,
       threads := (threads s)[i := (threads s ! i)\<lparr>at := Done\<rparr>]\<rparr>"
proof -
  let ?s1 = "s\<lparr>threads := (threads s)[i := (threads s ! i)\<lparr>at := Raised ''No files found to extract''\<rparr>]\<rparr>"
  let ?s2 = "s\<lparr>threads := (threads s)[i := (threads s ! i)\<lparr>at := Error_write ''No files found to extract''\<rparr>]\<rparr>"
  have 1: "fire s (Step i) = ?s1"
    using assms by (rule step_at_check4)
  have 2: "fire ?s1 (Step i) = ?s2"
    using assms(1,4) by (simp add: step_at_raised [of i ?s1 "''No files found to extract''"])
  have 3: "fire ?s2 (Step i) =
     s\<lparr>state := (state s)\<lparr>status := Error, error := Some ''No files found to extract'',
                          message := ''Error: No files found to extract''\<rparr>,
       threads := (threads s)[i := (threads s ! i)\<lparr>at := Done\<rparr>]\<rparr>"
    using assms(1) by (simp add: step_at_error_write [of i ?s2 "''No files found to extract''"])
  show ?thesis
    by (simp only: foldl.simps 1 2 3)
qed


lemma extract_folder_empty_flat:
  "list_whole_drive (list_pages D (WholeDrive (\<not> include_trashed))) [] = Inr [] \<Longrightarrow>
   extract_folder L D w c None include_trashed = Inr []"
  by (simp add: extract_folder_def)

lemma extract_folder_empty_root:
  "collect_from_root L D include_trashed (PStr fid) = Inr ([], V) \<Longrightarrow> fid \<noteq> [] \<Longrightarrow>
   extract_folder L D w c (Some fid) include_trashed = Inr []"
  by (simp add: extract_folder_def)

text \<open>
  C2 (as the code has it). When traversal finds no item, \<open>extract_folder\<close> returns
  the empty list without raising. \<open>run_extraction\<close> then raises
  \<open>No files found to extract\<close>: unless a stop has been requested the job ends in the
  error state with that text, the records stay as they were and no export file is
  written.
\<close>

theorem C2_empty_result_ends_in_error:
  "(list_whole_drive (list_pages D (WholeDrive (\<not> include_trashed))) [] = Inr [] \<longrightarrow>
      extract_folder L D w c None include_trashed = Inr [])
   \<and> (collect_from_root L D include_trashed (PStr fid) = Inr ([], V) \<and> fid \<noteq> [] \<longrightarrow>
      extract_folder L D w c (Some fid) include_trashed = Inr [])
   \<and> (i < length (threads s) \<and> at (threads s ! i) = Stop_check 4
        \<and> extraction (job_of (threads s ! i)) = Inr [] \<and> \<not> stop_event s \<longrightarrow>
      foldl fire s [Step i, Step i, Step i] =
        s\<lparr>state := (state s)\<lparr>status := Error, error := Some ''No files found to extract'',
                             message := ''Error: No files found to extract''\<rparr>,
          threads := (threads s)[i := (threads s ! i)\<lparr>at := Done\<rparr>]\<rparr>)"
proof (intro conjI impI)
  assume "list_whole_drive (list_pages D (WholeDrive (\<not> include_trashed))) [] = Inr []"
  then show "extract_folder L D w c None include_trashed = Inr []"
    by (rule extract_folder_empty_flat)
next
  assume a: "collect_from_root L D include_trashed (PStr fid) = Inr ([], V) \<and> fid \<noteq> []"
  show "extract_folder L D w c (Some fid) include_trashed = Inr []"
    by (rule extract_folder_empty_root [OF a [THEN conjunct1] a [THEN conjunct2]])
next
  assume a: "i < length (threads s) \<and> at (threads s ! i) = Stop_check 4
        \<and> extraction (job_of (threads s ! i)) = Inr [] \<and> \<not> stop_event s"
  show "foldl fire s [Step i, Step i, Step i] =
        s\<lparr>state := (state s)\<lparr>status := Error, error := Some ''No files found to extract'',
                             message := ''Error: No files found to extract''\<rparr>,
          threads := (threads s)[i := (threads s ! i)\<lparr>at := Done\<rparr>]\<rparr>"
    by (rule empty_result_steps) (use a in blast)+
qed

theorem C2_empty_result_ends_in_error_witness:
  "list_whole_drive (list_pages (flat_drive []) (WholeDrive (\<not> False))) [] = Inr []
   \<and> extract_folder stub_lib (flat_drive []) 1 submission_order None False = Inr []
   \<and> collect_from_root stub_lib (folder_drive []) False (PStr ''root'') = Inr ([], {PStr ''root''})
   \<and> extract_folder stub_lib (folder_drive []) 1 submission_order (Some ''root'') False = Inr []
   \<and> at (threads (run (Start empty_job # replicate 12 (Step 0))) ! 0) = Stop_check 4
   \<and> extraction (job_of (threads (run (Start empty_job # replicate 12 (Step 0))) ! 0)) = Inr []
   \<and> \<not> stop_event (run (Start empty_job # replicate 12 (Step 0)))
   \<and> status (state (foldl fire (run (Start empty_job # replicate 12 (Step 0)))
                        [Step 0, Step 0, Step 0])) = Error
   \<and> written (foldl fire (run (Start empty_job # replicate 12 (Step 0)))
                        [Step 0, Step 0, Step 0]) = []"
proof -
  define s where "s = run (Start empty_job # replicate 12 (Step 0))"
  have flat: "list_whole_drive (list_pages (flat_drive []) (WholeDrive (\<not> False))) [] = Inr []"
    by (simp add: list_pages_def flat_drive_def)
  have root: "collect_from_root stub_lib (folder_drive []) False (PStr ''root'') = Inr ([], {PStr ''root''})"
    by (simp add: collect_from_root_def stub_lib_def numeral_eq_Suc folder_drive_def
        children_of_def list_pages_def)
  have ne: "''root'' \<noteq> []"
    by simp
  have h: "0 < length (threads s) \<and> at (threads s ! 0) = Stop_check 4
      \<and> extraction (job_of (threads s ! 0)) = Inr [] \<and> \<not> stop_event s"
    unfolding s_def by code_simp
  have w: "written s = []"
    unfolding s_def by code_simp
  note inst = C2_empty_result_ends_in_error
    [where D = "flat_drive []" and include_trashed = False and L = stub_lib and w = 1
       and c = submission_order and i = 0 and s = s]
  note inst' = C2_empty_result_ends_in_error
    [where D = "folder_drive []" and include_trashed = False and L = stub_lib and w = 1
       and c = submission_order and fid = "''root''" and V = "{PStr ''root''}"]
  from inst [THEN conjunct1, THEN mp, OF flat]
  have 1: "extract_folder stub_lib (flat_drive []) 1 submission_order None False = Inr []" .
  from inst' [THEN conjunct2, THEN conjunct1, THEN mp, OF conjI, OF root ne]
  have 2: "extract_folder stub_lib (folder_drive []) 1 submission_order (Some ''root'') False = Inr []" .
  from inst [THEN conjunct2, THEN conjunct2, THEN mp, OF h]
  have 3: "foldl fire s [Step 0, Step 0, Step 0] =
        s\<lparr>state := (state s)\<lparr>status := Error, error := Some ''No files found to extract'',
                             message := ''Error: No files found to extract''\<rparr>,
          threads := (threads s)[0 := (threads s ! 0)\<lparr>at := Done\<rparr>]\<rparr>" .
  have 4: "status (state (foldl fire s [Step 0, Step 0, Step 0])) = Error"
    and 5: "written (foldl fire s [Step 0, Step 0, Step 0]) = []"
    unfolding 3 using w by simp_all
  from flat 1 root 2 h 4 5 show ?thesis
    unfolding s_def by (simp only: simp_thms)
qed

text \<open>
  The job that finds no file ends in the error state, with no export.
\<close>

theorem C2_counterexample:
  "extract_folder stub_lib (flat_drive []) 1 submission_order None False = Inr []
   \<and> extraction empty_job = Inr []
   \<and> status (state (run (Start empty_job # replicate 15 (Step 0)))) = Error
   \<and> error (state (run (Start empty_job # replicate 15 (Step 0)))) = Some ''No files found to extract''
   \<and> written (run (Start empty_job # replicate 15 (Step 0))) = []
   \<and> map at (threads (run (Start empty_job # replicate 15 (Step 0)))) = [Done]"
  by code_simp




















text \<open>
  C9 (the code at a failing input). \<open>start_extraction\<close> refuses a request only when
  the status is \<open>running\<close>. A job that is paused has a worker, and a start request is
  accepted all the same: two workers then share the job state. In \<open>overlapping_run\<close>
  the first worker completes and publishes its records, and the second, finding no file,
  sets the status to \<open>error\<close>: the records are populated and the status is not
  \<open>completed\<close>.
\<close>

theorem C9_metadata_outside_completed:
  "status (state (run (take 10 overlapping_run))) = Paused
   \<and> map at (threads (run (take 10 overlapping_run))) = [Cb_check 0]
   \<and> map at (threads (run (take 11 overlapping_run))) = [Cb_check 0, Begin]
   \<and> status (state (run overlapping_run)) = Error
   \<and> metadata (state (run overlapping_run))
       = Some (all_metadata (sequential_loop stub_lib [item_a]))
   \<and> map at (threads (run overlapping_run)) = [Done, Done]"
  by code_simp

end
